theory Spec2Isabelle
  imports Main "HOL-Library.Word" "HOL-Library.Char_ord" "HOL-Library.List_Lexorder"
    "HOL-Library.Product_Lexorder"
begin

section \<open>Symbols, values and errors\<close>

text \<open>
  A \<open>Symbol\<close> wraps an interned string; two symbols are equal exactly when their texts
  are, and \<open>operator<\<close> compares the texts. A symbol is modelled by its text. The
  constructor rejects any character that is neither alphanumeric nor an underscore.
\<close>

type_synonym symbol = string

text \<open>
  \<open>Value\<close> (value.h) is a shared pointer to one of six \<open>ValueImpl\<close> subclasses, the null
  pointer being \<open>Nil\<close>. A \<open>PairValue\<close> holds a head \<open>Value\<close> and a tail that is a
  (possibly null) pointer to another \<open>PairValue\<close>: a pair is a non-empty chain of
  values. \<open>Pair h t\<close> is the cell with head \<open>h\<close> whose tail chain holds the values
  \<open>t\<close> (\<open>[]\<close> for the null tail).
\<close>

datatype val =
    Nil
  | Pair val "val list"
  | Sym symbol
  | Bool bool
  | Int64 "64 word"
  | Blob "8 word list"
  | Str string

section \<open>The order of values (Value::operator<)\<close>

text \<open>
  Values of different variants compare by the number of their \<open>Type\<close>. Two pairs
  compare first by \<open>mLength\<close>, then element by element along the two chains
  (\<open>chain_less\<close> is that loop, ending in \<open>!a && b\<close>). Symbols and strings compare as
  \<open>std::string\<close>, blobs as \<open>std::vector<uint8_t>\<close>, integers as signed 64-bit numbers.
\<close>

fun getType :: "val \<Rightarrow> nat" where
  "getType Nil = 0"
| "getType (Pair h t) = 1"
| "getType (Sym s) = 2"
| "getType (Bool b) = 3"
| "getType (Int64 i) = 4"
| "getType (Blob b) = 5"
| "getType (Str s) = 6"

function (sequential) value_less :: "val \<Rightarrow> val \<Rightarrow> bool"
  and chain_less :: "val list \<Rightarrow> val list \<Rightarrow> bool"
where
  "value_less Nil Nil = False"
| "value_less (Pair h t) (Pair h' t') =
     (if Suc (length t) < Suc (length t') then True
      else if Suc (length t') < Suc (length t) then False
      else chain_less (h # t) (h' # t'))"
| "value_less (Sym x) (Sym y) = (x < y)"
| "value_less (Bool x) (Bool y) = (x < y)"
| "value_less (Int64 x) (Int64 y) = (x <s y)"
| "value_less (Blob x) (Blob y) = (x < y)"
| "value_less (Str x) (Str y) = (x < y)"
| "value_less a b = (getType a < getType b)"
| "chain_less (x # xs) (y # ys) =
     (if value_less x y then True
      else if value_less y x then False
      else chain_less xs ys)"
| "chain_less [] ys = (ys \<noteq> [])"
| "chain_less (x # xs) [] = False"
  by pat_completeness auto
termination
  by (relation "measure (\<lambda>s. case s of
         Inl (a, b) \<Rightarrow> 2 * (size a + size b) + 1
       | Inr (xs, ys) \<Rightarrow> 2 * (size_list size xs + size_list size ys))") auto

text \<open>
  The comparison is a strict linear order, so \<open>std::set<Value>\<close>,
  \<open>std::set<std::vector<Value>>\<close> and \<open>std::map\<close> keyed or valued by \<open>Value\<close> are
  well defined; it becomes the order of the type.
\<close>

lemma value_less_types: "getType a \<noteq> getType b \<Longrightarrow> value_less a b = (getType a < getType b)"
  by (cases a; cases b) auto

lemma value_less_getType: "value_less a b \<Longrightarrow> getType a \<le> getType b"
  by (cases a; cases b) auto

lemma chain_total:
  assumes "\<forall>x\<in>set xs. \<forall>y. value_less x y \<or> x = y \<or> value_less y x"
    and "length xs = length ys"
  shows "chain_less xs ys \<or> xs = ys \<or> chain_less ys xs"
  using assms
proof (induction xs arbitrary: ys)
  case Nil then show ?case by simp
next
  case (Cons x xs)
  then obtain y ys' where ys: "ys = y # ys'" by (cases ys) auto
  with Cons show ?case by (auto)
qed

lemma value_total: "value_less a b \<or> a = b \<or> value_less b a"
proof (induction a arbitrary: b)
  case (Pair h t)
  show ?case
  proof (cases b)
    case (Pair h' t')
    show ?thesis
    proof (cases "length t = length t'")
      case True
      have "\<forall>x\<in>set (h # t). \<forall>y. value_less x y \<or> x = y \<or> value_less y x"
        using Pair.IH by auto
      from chain_total [OF this, of "h' # t'"] True
      show ?thesis using \<open>b = Pair h' t'\<close> by auto
    next
      case False then show ?thesis using \<open>b = Pair h' t'\<close> by auto
    qed
  qed auto
next
  case (Int64 x) then show ?case using signed.less_linear by (cases b) auto
qed (case_tac b; auto)+

lemma chain_irrefl:
  "\<forall>x\<in>set xs. \<not> value_less x x \<Longrightarrow> \<not> chain_less xs xs"
  by (induction xs) auto

lemma value_irrefl: "\<not> value_less a a"
proof (induction a)
  case (Pair h t)
  have "\<not> chain_less (h # t) (h # t)"
    by (rule chain_irrefl) (use Pair in auto)
  then show ?case by simp
qed auto

lemma value_equiv_eq: "\<not> value_less a b \<Longrightarrow> \<not> value_less b a \<Longrightarrow> a = b"
  using value_total by blast

lemma chain_trans:
  assumes "\<forall>x\<in>set xs. \<forall>y z. value_less x y \<longrightarrow> value_less y z \<longrightarrow> value_less x z"
    and "length xs = length ys" "length ys = length zs"
    and "chain_less xs ys" "chain_less ys zs"
  shows "chain_less xs zs"
  using assms
proof (induction xs arbitrary: ys zs)
  case Nil then show ?case by simp
next
  case (Cons x xs)
  from Cons.prems(2) obtain y ys' where ys: "ys = y # ys'" by (cases ys) auto
  from Cons.prems(3) ys obtain z zs' where zs: "zs = z # zs'" by (cases zs) auto
  have tr: "\<And>y z. value_less x y \<Longrightarrow> value_less y z \<Longrightarrow> value_less x z"
    using Cons.prems(1) by simp
  have len: "length xs = length ys'" "length ys' = length zs'"
    using Cons.prems(2,3) ys zs by simp_all
  have sub: "\<forall>x\<in>set xs. \<forall>y z. value_less x y \<longrightarrow> value_less y z \<longrightarrow> value_less x z"
    using Cons.prems(1) by simp
  have IH: "chain_less xs ys' \<Longrightarrow> chain_less ys' zs' \<Longrightarrow> chain_less xs zs'"
    using Cons.IH [OF sub len] .
  have step: "\<And>u us v vs. chain_less (u # us) (v # vs) \<Longrightarrow>
      value_less u v \<or> (u = v \<and> chain_less us vs)"
  proof -
    fix u us v vs assume c: "chain_less (u # us) (v # vs)"
    show "value_less u v \<or> (u = v \<and> chain_less us vs)"
    proof (cases "value_less u v")
      case False
      with c have "\<not> value_less v u" "chain_less us vs" by (auto split: if_splits)
      with False value_equiv_eq [of u v] show ?thesis by simp
    qed simp
  qed
  consider (a) "value_less x y" | (b) "x = y" "chain_less xs ys'"
    using step [of x xs y ys'] Cons.prems(4) ys by blast
  then show ?case
  proof cases
    case a
    consider (c) "value_less y z" | (d) "y = z"
      using step [of y ys' z zs'] Cons.prems(5) ys zs by blast
    then show ?thesis
    proof cases
      case c with a tr have "value_less x z" by blast
      then show ?thesis using zs by simp
    next
      case d with a show ?thesis using zs by simp
    qed
  next
    case b
    consider (c) "value_less y z" | (d) "y = z" "chain_less ys' zs'"
      using step [of y ys' z zs'] Cons.prems(5) ys zs by blast
    then show ?thesis
    proof cases
      case c with b show ?thesis using zs by simp
    next
      case d with b IH show ?thesis using zs by (simp add: value_irrefl)
    qed
  qed
qed

lemma value_trans: "value_less a b \<Longrightarrow> value_less b c \<Longrightarrow> value_less a c"
proof (induction a arbitrary: b c)
  case (Pair h t)
  from Pair.prems have tb: "getType b \<ge> 1" and tc: "getType c \<ge> getType b"
    using value_less_getType by fastforce+
  show ?case
  proof (cases b)
    case bP: (Pair h' t')
    show ?thesis
    proof (cases c)
      case cP: (Pair h'' t'')
      have le1: "length t \<le> length t'" using Pair.prems(1) bP by (auto split: if_splits)
      have le2: "length t' \<le> length t''" using Pair.prems(2) bP cP by (auto split: if_splits)
      show ?thesis
      proof (cases "length t = length t' \<and> length t' = length t''")
        case True
        have 1: "chain_less (h # t) (h' # t')" using Pair.prems(1) bP True by simp
        have 2: "chain_less (h' # t') (h'' # t'')" using Pair.prems(2) bP cP True by simp
        have "\<forall>x\<in>set (h # t). \<forall>y z. value_less x y \<longrightarrow> value_less y z \<longrightarrow> value_less x z"
          using Pair.IH by auto
        from chain_trans [OF this _ _ 1 2] True
        have "chain_less (h # t) (h'' # t'')" by simp
        then show ?thesis using cP True by simp
      next
        case False
        with le1 le2 have "length t < length t''" by linarith
        then show ?thesis using cP by simp
      qed
    qed (use Pair.prems bP in auto)
  next
    case Nil with Pair.prems show ?thesis by simp
  next
    case (Sym x) with Pair.prems show ?thesis by (cases c) auto
  next
    case (Bool x) with Pair.prems show ?thesis by (cases c) auto
  next
    case (Int64 x) with Pair.prems show ?thesis by (cases c) auto
  next
    case (Blob x) with Pair.prems show ?thesis by (cases c) auto
  next
    case (Str x) with Pair.prems show ?thesis by (cases c) auto
  qed
next
  case Nil then show ?case by (cases b; cases c) auto
next
  case (Sym x) then show ?case by (cases b; cases c) auto
next
  case (Bool x) then show ?case by (cases b; cases c) auto
next
  case (Int64 x) then show ?case using signed.less_trans by (cases b; cases c) auto
next
  case (Blob x) then show ?case by (cases b; cases c) auto
next
  case (Str x) then show ?case by (cases b; cases c) auto
qed

instantiation val :: linorder
begin

definition less_val :: "val \<Rightarrow> val \<Rightarrow> bool" where
  "less_val a b = value_less a b"

definition less_eq_val :: "val \<Rightarrow> val \<Rightarrow> bool" where
  "less_eq_val a b = (\<not> value_less b a)"

instance
proof
  fix x y z :: val
  show "(x < y) = (x \<le> y \<and> \<not> y \<le> x)"
    unfolding less_val_def less_eq_val_def using value_trans value_irrefl by blast
  show "x \<le> x" unfolding less_eq_val_def by (rule value_irrefl)
  show "x \<le> y \<Longrightarrow> y \<le> z \<Longrightarrow> x \<le> z"
    unfolding less_eq_val_def using value_trans value_total by blast
  show "x \<le> y \<Longrightarrow> y \<le> x \<Longrightarrow> x = y"
    unfolding less_eq_val_def using value_total by blast
  show "x \<le> y \<or> y \<le> x"
    unfolding less_eq_val_def using value_trans value_irrefl by blast
qed

end

text \<open>Every \<open>throw\<close> and every \<open>assert\<close> of the sources is a value of this type.\<close>

datatype error =
    DuplicateRule symbol
  | RuleNotFound symbol
  | RuleHasNoProductions symbol
  | NeedsNonterminalProduction symbol
  | NoActiveProductions symbol
  | UnknownRuleName symbol
  | DepthLimitZero
  | UnknownParam symbol
  | PickUniformOnEmpty
  | OutOfRange
  | AssertionFailed
  | SymbolNotAlphanumeric
  | IncompletePairList
  | IncompleteBlob
  | IncompleteStringEscape
  | IncompleteString
  | UnknownSpecialSymbol string
  | InputFailure int string string
  | EmptyString int
  | ExpectingCheckOrTrack string int
  | ExpectedHeadSymbol

section \<open>std::map as a sorted association list\<close>

text \<open>
  \<open>std::map<K, V>\<close> keeps its entries sorted by key and iterates in that order.
  \<open>emplace\<close> inserts only when no entry has an equivalent key; \<open>find\<close> searches by the
  comparator.
\<close>

fun map_emplace :: "'k::linorder \<Rightarrow> 'v \<Rightarrow> ('k \<times> 'v) list \<Rightarrow> ('k \<times> 'v) list" where
  "map_emplace k v [] = [(k, v)]"
| "map_emplace k v ((k', v') # m) =
     (if k < k' then (k, v) # (k', v') # m
      else if k' < k then (k', v') # map_emplace k v m
      else (k', v') # m)"

fun map_find :: "'k::linorder \<Rightarrow> ('k \<times> 'v) list \<Rightarrow> 'v option" where
  "map_find k [] = None"
| "map_find k ((k', v') # m) =
     (if k < k' then None
      else if k' < k then map_find k m
      else Some v')"

section \<open>Plan (the std::map variant of corpus.cpp)\<close>

type_synonym params = "(symbol \<times> val) list"

record plan =
  mTestName :: symbol
  mParams :: params

definition addParam :: "plan \<Rightarrow> symbol \<Rightarrow> val \<Rightarrow> plan" where
  "addParam p n v = p\<lparr>mParams := map_emplace n v (mParams p)\<rparr>"

definition getParam :: "plan \<Rightarrow> symbol \<Rightarrow> error + val" where
  "getParam p n =
     (case map_find n (mParams p) of
        None \<Rightarrow> Inl (UnknownParam n)
      | Some v \<Rightarrow> Inr v)"

section \<open>Grammar data model (grammar.h)\<close>

text \<open>
  Atoms are held through shared pointers and compared by pointer: \<open>KPath\<close> is a vector
  of \<open>AtomPtr\<close> and sets of k-paths and of \<open>RefPtr\<close> order and compare the pointers.
  Each atom therefore carries the identity of its object: \<open>mTag\<close> for a \<open>Ref\<close> (the
  constructor hands every \<open>Ref\<close> object a fresh tag) and an object number for a \<open>Lit\<close>.
  \<open>mCtxExt\<close> and \<open>mCtxReq\<close> are \<open>std::set<ParamName>\<close>, held as the list of their
  elements in iteration order.
\<close>

datatype ref = MkRef (mTag: nat) (mRuleName: symbol) (mCtxExt: "symbol list")

datatype atom = Lit nat val | Ref ref

fun isRef :: "atom \<Rightarrow> bool" where
  "isRef (Ref r) = True"
| "isRef (Lit i v) = False"

record production =
  mAtoms :: "atom list"
  mCtxReq :: "symbol list"
  mHasRefs :: bool

text \<open>The constructor of \<open>Production\<close> scans the atoms for a \<open>Ref\<close>.\<close>

fun scanHasRefs :: "atom list \<Rightarrow> bool" where
  "scanHasRefs [] = False"
| "scanHasRefs (a # as) = (if isRef a then True else scanHasRefs as)"

definition Production :: "atom list \<Rightarrow> symbol list \<Rightarrow> production" where
  "Production atoms req = \<lparr>mAtoms = atoms, mCtxReq = req, mHasRefs = scanHasRefs atoms\<rparr>"

record rule =
  mProductions :: "production list"

record grammar =
  mRules :: "symbol \<rightharpoonup> rule"
  mRootRefs :: "symbol \<rightharpoonup> ref"

type_synonym paramspecs = "(symbol \<times> symbol) list"

record Context =
  mGlobalParamSpecs :: paramspecs
  mLocalParamNames :: "symbol list"

definition Context :: "paramspecs \<Rightarrow> Context" where
  "Context ps = \<lparr>mGlobalParamSpecs = ps, mLocalParamNames = []\<rparr>"

definition push :: "Context \<Rightarrow> symbol list \<Rightarrow> Context" where
  "push ctx ps = ctx\<lparr>mLocalParamNames := mLocalParamNames ctx @ ps\<rparr>"

definition pop :: "Context \<Rightarrow> nat \<Rightarrow> Context" where
  "pop ctx n = ctx\<lparr>mLocalParamNames := take (length (mLocalParamNames ctx) - n) (mLocalParamNames ctx)\<rparr>"

definition has :: "Context \<Rightarrow> symbol \<Rightarrow> bool" where
  "has ctx s =
     (if map_find s (mGlobalParamSpecs ctx) \<noteq> None then True
      else s \<in> set (rev (mLocalParamNames ctx)))"

fun hasAll :: "Context \<Rightarrow> symbol list \<Rightarrow> bool" where
  "hasAll ctx [] = True"
| "hasAll ctx (s # ss) = (if \<not> has ctx s then False else hasAll ctx ss)"

section \<open>Active productions (grammar.cpp)\<close>

definition getProductions :: "grammar \<Rightarrow> symbol \<Rightarrow> error + production list" where
  "getProductions G r =
     (case mRules G r of
        None \<Rightarrow> Inl (RuleNotFound r)
      | Some rl \<Rightarrow>
          if mProductions rl = [] then Inl (RuleHasNoProductions r)
          else Inr (mProductions rl))"

text \<open>
  The loop of \<open>getActiveProductions\<close> over the productions, with its two locals
  \<open>activeProds\<close> and \<open>skippedDueToRefs\<close>.
\<close>

fun activeLoop ::
  "nat \<Rightarrow> Context \<Rightarrow> production list \<Rightarrow> production list \<Rightarrow> bool \<Rightarrow> production list \<times> bool"
where
  "activeLoop depthLimit ctx [] activeProds skippedDueToRefs = (activeProds, skippedDueToRefs)"
| "activeLoop depthLimit ctx (prd # prods) activeProds skippedDueToRefs =
     (if depthLimit = 1 \<and> mHasRefs prd
      then activeLoop depthLimit ctx prods activeProds True
      else if hasAll ctx (mCtxReq prd)
      then activeLoop depthLimit ctx prods (activeProds @ [prd]) skippedDueToRefs
      else activeLoop depthLimit ctx prods activeProds skippedDueToRefs)"

definition getActiveProductions ::
  "grammar \<Rightarrow> symbol \<Rightarrow> nat \<Rightarrow> Context \<Rightarrow> error + production list"
where
  "getActiveProductions G r depthLimit ctx =
     (case getProductions G r of
        Inl e \<Rightarrow> Inl e
      | Inr prods \<Rightarrow>
          (case activeLoop depthLimit ctx prods [] False of
             (activeProds, skippedDueToRefs) \<Rightarrow>
               if activeProds = [] then
                 (if skippedDueToRefs then Inl (NeedsNonterminalProduction r)
                  else Inl (NoActiveProductions r))
               else Inr activeProds))"

definition getRootRef :: "grammar \<Rightarrow> symbol \<Rightarrow> error + ref" where
  "getRootRef G r =
     (case mRootRefs G r of
        None \<Rightarrow> Inl (UnknownRuleName r)
      | Some rp \<Rightarrow> Inr rp)"

section \<open>Cyclical zip (grammar.cpp)\<close>

text \<open>
  \<open>std::set<T>\<close> is the strictly sorted list of its elements, which is the order its
  iterators visit; \<open>emplace\<close> leaves the set alone when the element is there.
\<close>

fun set_emplace :: "'a::linorder \<Rightarrow> 'a list \<Rightarrow> 'a list" where
  "set_emplace x [] = [x]"
| "set_emplace x (y # ys) =
     (if x < y then x # y # ys
      else if y < x then y # set_emplace x ys
      else y # ys)"

text \<open>
  The \<open>while\<close> loop of the two \<open>extendByCycling\<close> overloads. The iterators \<open>i\<close>
  and \<open>j\<close> are positions in the iteration order of the two sets;
  \<open>comb\<close> builds \<open>tmp\<close> from \<open>*i\<close> and \<open>*j\<close>. Dereferencing an end iterator,
  which the two \<open>assert\<close>s at the top exclude, is an assertion failure.
\<close>

function cycleLoop ::
  "('p \<Rightarrow> 'e \<Rightarrow> 'r::linorder) \<Rightarrow> 'p list \<Rightarrow> 'e list \<Rightarrow> nat \<Rightarrow> nat \<Rightarrow> bool \<Rightarrow> bool \<Rightarrow> 'r list
     \<Rightarrow> error + 'r list"
where
  "cycleLoop comb vecs ext i j cycledI cycledJ res =
     (if cycledI \<and> cycledJ then Inr res
      else if i < length vecs \<and> j < length ext then
        cycleLoop comb vecs ext
          (if Suc i = length vecs then 0 else Suc i)
          (if Suc j = length ext then 0 else Suc j)
          (if Suc i = length vecs then True else cycledI)
          (if Suc j = length ext then True else cycledJ)
          (set_emplace (comb (vecs ! i) (ext ! j)) res)
      else Inl AssertionFailed)"
  by pat_completeness auto
termination
  by (relation "measure (\<lambda>(comb, vecs, ext, i, j, cI, cJ, res).
        (if cI then 0 else length vecs - i) + (if cJ then 0 else length ext - j))")
     (auto split: if_splits)

declare cycleLoop.simps [simp del]

definition extendByCyclingWith ::
  "('p \<Rightarrow> 'e \<Rightarrow> 'r::linorder) \<Rightarrow> 'p list \<Rightarrow> 'e list \<Rightarrow> error + 'r list"
where
  "extendByCyclingWith comb vecs ext =
     (if vecs = [] then Inl AssertionFailed
      else if ext = [] then Inl AssertionFailed
      else cycleLoop comb vecs ext 0 0 False False [])"

text \<open>
  The overload on \<open>std::set<std::vector<Value>>\<close> appends \<open>*j\<close> to the vector; the
  overload on \<open>std::set<Params>\<close> emplaces \<open>(param, *j)\<close> into the map.
\<close>

definition extendByCycling :: "val list list \<Rightarrow> val list \<Rightarrow> error + val list list" where
  "extendByCycling vecs ext = extendByCyclingWith (\<lambda>tmp v. tmp @ [v]) vecs ext"

definition extendByCyclingParams :: "params list \<Rightarrow> symbol \<Rightarrow> val list \<Rightarrow> error + params list" where
  "extendByCyclingParams ps param ext = extendByCyclingWith (\<lambda>tmp v. map_emplace param v tmp) ps ext"

section \<open>Pattern matching (value.h)\<close>

text \<open>
  A match target is one argument of the variadic \<open>match\<close>: a mutable reference
  \<open>T&\<close> is a slot that captures the payload, a \<open>T const&\<close> is an equality
  witness (\<open>matchOne(T const&)\<close> matches a temporary and compares it), and a
  \<open>Matcher<T>\<close> runs the client's own \<open>match\<close> override on the value. Overload
  resolution keeps the constness of every argument on its own, so a target list is any
  sequence of these. The model computes whether the match succeeds; the values
  written to the slots are left out.
\<close>

datatype target =
    ToValue
  | ToPair
  | ToSym
  | ToBool
  | ToInt64
  | ToBlob
  | ToStr
  | EqValue val
  | EqSym symbol
  | EqBool bool
  | EqInt64 "64 word"
  | EqBlob "8 word list"
  | EqStr string
  | ViaMatcher "val \<Rightarrow> bool"

text \<open>
  A single target: \<open>match(Value&)\<close> always succeeds; any other slot goes through
  the virtual \<open>ValueImpl::match(T&)\<close>, which only \<open>TypedValue<T>\<close> overrides, and
  fails on the null \<open>mImpl\<close> of \<open>Nil\<close>.
\<close>

fun matchOne :: "val \<Rightarrow> target \<Rightarrow> bool" where
  "matchOne v ToValue = True"
| "matchOne v ToPair = (case v of Pair h t \<Rightarrow> True | _ \<Rightarrow> False)"
| "matchOne v ToSym = (case v of Sym s \<Rightarrow> True | _ \<Rightarrow> False)"
| "matchOne v ToBool = (case v of Bool b \<Rightarrow> True | _ \<Rightarrow> False)"
| "matchOne v ToInt64 = (case v of Int64 i \<Rightarrow> True | _ \<Rightarrow> False)"
| "matchOne v ToBlob = (case v of Blob b \<Rightarrow> True | _ \<Rightarrow> False)"
| "matchOne v ToStr = (case v of Str s \<Rightarrow> True | _ \<Rightarrow> False)"
| "matchOne v (EqValue w) = (v = w)"
| "matchOne v (EqSym w) = (case v of Sym s \<Rightarrow> s = w | _ \<Rightarrow> False)"
| "matchOne v (EqBool w) = (case v of Bool b \<Rightarrow> b = w | _ \<Rightarrow> False)"
| "matchOne v (EqInt64 w) = (case v of Int64 i \<Rightarrow> i = w | _ \<Rightarrow> False)"
| "matchOne v (EqBlob w) = (case v of Blob b \<Rightarrow> b = w | _ \<Rightarrow> False)"
| "matchOne v (EqStr w) = (case v of Str s \<Rightarrow> s = w | _ \<Rightarrow> False)"
| "matchOne v (ViaMatcher m) = m v"

text \<open>
  \<open>PairValue::match\<close> on the cell with head \<open>first\<close> and tail chain \<open>second\<close>:
  the overload for one target, and the four variadic overloads, which share one body.
\<close>

fun PairValue_match :: "val \<Rightarrow> val list \<Rightarrow> target \<Rightarrow> target list \<Rightarrow> bool" where
  "PairValue_match first second head [] = matchOne first head"
| "PairValue_match first second head (t # tail) =
     (matchOne first head \<and>
      (case second of
         [] \<Rightarrow> True
       | first' # second' \<Rightarrow> PairValue_match first' second' t tail))"

text \<open>\<open>Value::match\<close> for zero, one, and two or more targets.\<close>

fun Value_match :: "val \<Rightarrow> target list \<Rightarrow> bool" where
  "Value_match v [] = True"
| "Value_match v [out] = matchOne v out"
| "Value_match v (head # t # tail) =
     (case v of
        Pair first second \<Rightarrow> PairValue_match first second head (t # tail)
      | _ \<Rightarrow> False)"

text \<open>
  The claim in the words of the specification: the value is a pair, its head matches
  the first target, and its tail, taken as a value (another pair or \<open>Nil\<close>), matches
  the remaining targets.
\<close>

fun tailValue :: "val list \<Rightarrow> val" where
  "tailValue [] = Nil"
| "tailValue (h # t) = Pair h t"

definition claimed_match :: "val \<Rightarrow> target list \<Rightarrow> bool" where
  "claimed_match v ts =
     (case v of
        Pair h t \<Rightarrow> Value_match h [hd ts] \<and> Value_match (tailValue t) (tl ts)
      | _ \<Rightarrow> False)"

section \<open>k-path covering expansion (grammar.cpp)\<close>

text \<open>\<open>Value(std::vector<Value> const&)\<close> builds the pair chain from the back.\<close>

fun ValueOfVector :: "val list \<Rightarrow> val" where
  "ValueOfVector [] = Nil"
| "ValueOfVector (v # vs) = Pair v vs"

text \<open>
  A \<open>KPath\<close> is a vector of atom pointers. \<open>std::set<KPath>\<close> orders its elements by
  pointer value; the code only inserts, finds, erases and tests emptiness, so the set
  is held as a list without regard to order. An expansion is the pair of sets that
  \<open>kPathCoveringOrMinimalExpansion\<close> returns, together with the set \<open>paths\<close> of
  uncovered k-paths that it updates through its reference parameter.
\<close>

type_synonym kpath = "atom list"

type_synonym expansion = "(val list \<times> val list) \<times> kpath list"

text \<open>The last \<open>k - 1\<close> elements of \<open>path\<close>, when it has that many.\<close>

definition tentativeKPath :: "ref list \<Rightarrow> nat \<Rightarrow> kpath" where
  "tentativeKPath path k =
     (if length path \<ge> k - 1 then map Ref (drop (length path - (k - 1)) path) else [])"

text \<open>
  The first loop over the atoms of a production: it erases the first k-path
  \<open>kpath + [atom]\<close> found in \<open>paths\<close> and stops.
\<close>

fun coverLoop :: "kpath \<Rightarrow> atom list \<Rightarrow> kpath list \<Rightarrow> kpath list \<times> bool" where
  "coverLoop kpath [] paths = (paths, False)"
| "coverLoop kpath (a # as) paths =
     (if kpath @ [a] \<in> set paths then (removeAll (kpath @ [a]) paths, True)
      else coverLoop kpath as paths)"

text \<open>
  The second loop over the atoms. \<open>rec\<close> stands for the recursive call at
  \<open>depthLimit - 1\<close>. The context is passed by reference in the source; every call
  pops what it pushed before it returns, so the callee gets the pushed context and the
  caller goes on with the popped one.
\<close>

fun atomsLoop ::
  "(ref list \<Rightarrow> Context \<Rightarrow> kpath list \<Rightarrow> error + expansion) \<Rightarrow> ref list \<Rightarrow> Context \<Rightarrow> atom list
     \<Rightarrow> kpath list \<Rightarrow> val list list \<Rightarrow> bool \<Rightarrow> error + (val list list \<times> bool \<times> kpath list)"
where
  "atomsLoop rec path ctx [] paths prefixes covers = Inr (prefixes, covers, paths)"
| "atomsLoop rec path ctx (Lit i v # as) paths prefixes covers =
     (case extendByCycling prefixes [v] of
        Inl e \<Rightarrow> Inl e
      | Inr prefixes' \<Rightarrow> atomsLoop rec path ctx as paths prefixes' covers)"
| "atomsLoop rec path ctx (Ref r # as) paths prefixes covers =
     (case rec (path @ [r]) (push ctx (mCtxExt r)) paths of
        Inl e \<Rightarrow> Inl e
      | Inr ((subKPathCovering, subNonKPathCovering), paths') \<Rightarrow>
          if subKPathCovering \<noteq> [] then
            (case extendByCycling prefixes subKPathCovering of
               Inl e \<Rightarrow> Inl e
             | Inr prefixes' \<Rightarrow>
                 atomsLoop rec path (pop (push ctx (mCtxExt r)) (length (mCtxExt r))) as
                   paths' prefixes' True)
          else if length subNonKPathCovering \<noteq> 1 then Inl AssertionFailed
          else
            (case extendByCycling prefixes subNonKPathCovering of
               Inl e \<Rightarrow> Inl e
             | Inr prefixes' \<Rightarrow>
                 atomsLoop rec path (pop (push ctx (mCtxExt r)) (length (mCtxExt r))) as
                   paths' prefixes' covers))"

text \<open>The two \<open>for (auto prefix : prefixes)\<close> loops that emplace \<open>Value(prefix)\<close>.\<close>

fun emplaceAll :: "val list list \<Rightarrow> val list \<Rightarrow> val list" where
  "emplaceAll [] s = s"
| "emplaceAll (prefix # prefixes) s = emplaceAll prefixes (set_emplace (ValueOfVector prefix) s)"

text \<open>The loop over the active productions.\<close>

fun prodsLoop ::
  "(ref list \<Rightarrow> Context \<Rightarrow> kpath list \<Rightarrow> error + expansion) \<Rightarrow> ref list \<Rightarrow> Context \<Rightarrow> kpath
     \<Rightarrow> symbol \<Rightarrow> production list \<Rightarrow> kpath list \<Rightarrow> val list \<Rightarrow> val list
     \<Rightarrow> error + (val list \<times> val list \<times> kpath list)"
where
  "prodsLoop rec path ctx kpath rl [] paths kPathCovering nonKPathCovering =
     Inr (kPathCovering, nonKPathCovering, paths)"
| "prodsLoop rec path ctx kpath rl (prd # prods) paths kPathCovering nonKPathCovering =
     (case coverLoop kpath (mAtoms prd) paths of
        (paths1, covers1) \<Rightarrow>
          (case atomsLoop rec path ctx (mAtoms prd) paths1 [[Sym rl]] covers1 of
             Inl e \<Rightarrow> Inl e
           | Inr (prefixes, productionCoversSomeKPath, paths2) \<Rightarrow>
               if productionCoversSomeKPath
               then prodsLoop rec path ctx kpath rl prods paths2
                      (emplaceAll prefixes kPathCovering) nonKPathCovering
               else prodsLoop rec path ctx kpath rl prods paths2
                      kPathCovering (emplaceAll prefixes nonKPathCovering)))"

text \<open>
  The end of the function: clear the non-covering set when there is a covering
  expansion, else erase all but the first element of the non-covering set.
\<close>

definition keepCoveringOrSmallest :: "val list \<Rightarrow> val list \<Rightarrow> val list \<times> val list" where
  "keepCoveringOrSmallest kPathCovering nonKPathCovering =
     (if kPathCovering \<noteq> [] then (kPathCovering, [])
      else if length nonKPathCovering > 1 then (kPathCovering, take 1 nonKPathCovering)
      else (kPathCovering, nonKPathCovering))"

fun kPathCoveringOrMinimalExpansion ::
  "grammar \<Rightarrow> ref list \<Rightarrow> nat \<Rightarrow> Context \<Rightarrow> nat \<Rightarrow> kpath list \<Rightarrow> error + expansion"
where
  "kPathCoveringOrMinimalExpansion G path 0 ctx k paths = Inl DepthLimitZero"
| "kPathCoveringOrMinimalExpansion G path (Suc d) ctx k paths =
     (if path = [] then Inl AssertionFailed
      else if k = 0 then Inl AssertionFailed
      else
        (case getActiveProductions G (mRuleName (last path)) (Suc d) ctx of
           Inl e \<Rightarrow> Inl e
         | Inr prods \<Rightarrow>
             (case prodsLoop (\<lambda>subPath ctx' paths'. kPathCoveringOrMinimalExpansion G subPath d ctx' k paths')
                     path ctx (tentativeKPath path k) (mRuleName (last path)) prods paths [] [] of
                Inl e \<Rightarrow> Inl e
              | Inr (kPathCovering, nonKPathCovering, paths') \<Rightarrow>
                  (case keepCoveringOrSmallest kPathCovering nonKPathCovering of
                     (c, n) \<Rightarrow>
                       if c = [] \<and> n = [] then Inl AssertionFailed
                       else Inr ((c, n), paths')))))"


text \<open>An example grammar with the single rule \<open>A := 2 | 1\<close>.\<close>

definition gLits :: grammar where
  "gLits = \<lparr>mRules = [''A'' \<mapsto> \<lparr>mProductions =
               [Production [Lit 0 (Int64 2)] [], Production [Lit 1 (Int64 1)] []]\<rparr>],
            mRootRefs = [''A'' \<mapsto> MkRef 2 ''A'' []]\<rparr>"

section \<open>Uniform random generation (grammar.cpp, util.h)\<close>

text \<open>
  \<open>std::default_random_engine\<close> and \<open>std::uniform_int_distribution\<close> belong to the
  C++ library: the engine state is a type parameter and \<open>draw gen hi\<close> stands for
  \<open>dist(gen)\<close> with \<open>dist(0, hi)\<close>, returning the number drawn and the next state.
  \<open>elts.at(n)\<close> throws when \<open>n\<close> is out of range.
\<close>

definition pickUniform :: "('g \<Rightarrow> nat \<Rightarrow> nat \<times> 'g) \<Rightarrow> 'g \<Rightarrow> 'a list \<Rightarrow> error + ('a \<times> 'g)" where
  "pickUniform draw gen elts =
     (if elts = [] then Inl PickUniformOnEmpty
      else case draw gen (length elts - 1) of
             (n, gen') \<Rightarrow> if n < length elts then Inr (elts ! n, gen') else Inl OutOfRange)"

fun isPair :: "val \<Rightarrow> bool" where
  "isPair (Pair h t) = True"
| "isPair v = False"

text \<open>
  The loop of \<open>randomValueFromRule\<close> over the atoms of the production picked;
  \<open>rec\<close> stands for the recursive call at \<open>depth_lim - 1\<close>.
\<close>

fun randomAtoms ::
  "(symbol \<Rightarrow> 'g \<Rightarrow> Context \<Rightarrow> error + (val \<times> 'g)) \<Rightarrow> 'g \<Rightarrow> Context \<Rightarrow> atom list \<Rightarrow> val list
     \<Rightarrow> error + (val list \<times> 'g)"
where
  "randomAtoms rec gen ctx [] vals = Inr (vals, gen)"
| "randomAtoms rec gen ctx (Lit i v # as) vals = randomAtoms rec gen ctx as (vals @ [v])"
| "randomAtoms rec gen ctx (Ref r # as) vals =
     (case rec (mRuleName r) gen (push ctx (mCtxExt r)) of
        Inl e \<Rightarrow> Inl e
      | Inr (v, gen') \<Rightarrow>
          if \<not> isPair v then Inl AssertionFailed
          else if \<not> Value_match v [EqSym (mRuleName r), ToValue] then Inl AssertionFailed
          else randomAtoms rec gen' (pop (push ctx (mCtxExt r)) (length (mCtxExt r))) as (vals @ [v]))"

fun randomValueFromRule ::
  "('g \<Rightarrow> nat \<Rightarrow> nat \<times> 'g) \<Rightarrow> grammar \<Rightarrow> symbol \<Rightarrow> 'g \<Rightarrow> nat \<Rightarrow> Context \<Rightarrow> error + (val \<times> 'g)"
where
  "randomValueFromRule draw G rl gen 0 ctx = Inl DepthLimitZero"
| "randomValueFromRule draw G rl gen (Suc d) ctx =
     (case getActiveProductions G rl (Suc d) ctx of
        Inl e \<Rightarrow> Inl e
      | Inr prods \<Rightarrow>
          if prods \<noteq> [] then
            (case pickUniform draw gen prods of
               Inl e \<Rightarrow> Inl e
             | Inr (prd, gen1) \<Rightarrow>
                 (case randomAtoms (\<lambda>rl' gen' ctx'. randomValueFromRule draw G rl' gen' d ctx')
                         gen1 ctx (mAtoms prd) [Sym rl] of
                    Inl e \<Rightarrow> Inl e
                  | Inr (vals, gen2) \<Rightarrow> Inr (ValueOfVector vals, gen2)))
          else Inr (ValueOfVector [Sym rl], gen))"

text \<open>
  The depth bound of the claim in the words of the specification: rule \<open>rl\<close> has a
  derivation of depth at most \<open>d\<close> in context \<open>ctx\<close>, that is, its minimal derivation
  depth is at most \<open>d\<close>.
\<close>

fun derivableWithin :: "grammar \<Rightarrow> nat \<Rightarrow> Context \<Rightarrow> symbol \<Rightarrow> bool" where
  "derivableWithin G 0 ctx rl = False"
| "derivableWithin G (Suc d) ctx rl =
     (case mRules G rl of
        None \<Rightarrow> False
      | Some r \<Rightarrow>
          list_ex (\<lambda>p. hasAll ctx (mCtxReq p)
                        \<and> list_all (\<lambda>a. case a of
                                       Lit i v \<Rightarrow> True
                                     | Ref r' \<Rightarrow> derivableWithin G d (push ctx (mCtxExt r')) (mRuleName r'))
                                    (mAtoms p))
                  (mProductions r))"

text \<open>
  The grammar \<open>A := 1 | B; B := C; C := 1\<close>, and a generator that always draws the
  highest index.
\<close>

definition gDeep :: grammar where
  "gDeep = \<lparr>mRules = [''A'' \<mapsto> \<lparr>mProductions = [Production [Lit 0 (Int64 1)] [],
                                                 Production [Ref (MkRef 1 ''B'' [])] []]\<rparr>,
                     ''B'' \<mapsto> \<lparr>mProductions = [Production [Ref (MkRef 2 ''C'' [])] []]\<rparr>,
                     ''C'' \<mapsto> \<lparr>mProductions = [Production [Lit 3 (Int64 1)] []]\<rparr>],
           mRootRefs = [''A'' \<mapsto> MkRef 4 ''A'' [], ''B'' \<mapsto> MkRef 5 ''B'' [], ''C'' \<mapsto> MkRef 6 ''C'' []]\<rparr>"

definition drawHighest :: "nat \<Rightarrow> nat \<Rightarrow> nat \<times> nat" where
  "drawHighest gen hi = (hi, gen + 1)"

text \<open>A rule with a production that has no \<open>Ref\<close> and requires no context name.\<close>

definition hasTerminalProduction :: "grammar \<Rightarrow> symbol \<Rightarrow> bool" where
  "hasTerminalProduction G rl =
     (case mRules G rl of
        None \<Rightarrow> False
      | Some r \<Rightarrow> list_ex (\<lambda>p. \<not> mHasRefs p \<and> mCtxReq p = []) (mProductions r))"

text \<open>The grammar \<open>add := 0 | expr expr; expr := 1 | add\<close>.\<close>

definition gExpr :: grammar where
  "gExpr = \<lparr>mRules = [''add'' \<mapsto> \<lparr>mProductions = [Production [Lit 0 (Int64 0)] [],
                          Production [Ref (MkRef 1 ''expr'' []), Ref (MkRef 2 ''expr'' [])] []]\<rparr>,
                     ''expr'' \<mapsto> \<lparr>mProductions = [Production [Lit 3 (Int64 1)] [],
                          Production [Ref (MkRef 4 ''add'' [])] []]\<rparr>],
           mRootRefs = [''add'' \<mapsto> MkRef 5 ''add'' [], ''expr'' \<mapsto> MkRef 6 ''expr'' []]\<rparr>"

text \<open>
  A generator that draws the numbers of a list in turn, each cut down to the bound of
  the distribution, and \<open>0\<close> once the list is used up.
\<close>

fun drawList :: "nat list \<Rightarrow> nat \<Rightarrow> nat \<times> nat list" where
  "drawList [] hi = (0, [])"
| "drawList (n # ns) hi = (min n hi, ns)"

text \<open>
  \<open>activeThroughout G d ctx rl\<close>: at depth limit \<open>d\<close> in context \<open>ctx\<close> rule \<open>rl\<close> has an
  active production, and every rule named by a \<open>Ref\<close> of any of its active productions
  has the same property at depth limit \<open>d - 1\<close> in the context extended by that \<open>Ref\<close>:
  whatever the generator picks, it finds an active production.
\<close>

fun activeThroughout :: "grammar \<Rightarrow> nat \<Rightarrow> Context \<Rightarrow> symbol \<Rightarrow> bool" where
  "activeThroughout G 0 ctx rl = False"
| "activeThroughout G (Suc d) ctx rl =
     (case getActiveProductions G rl (Suc d) ctx of
        Inl e \<Rightarrow> False
      | Inr prods \<Rightarrow>
          list_all (\<lambda>p. list_all (\<lambda>a. case a of
                                         Lit i v \<Rightarrow> True
                                       | Ref r' \<Rightarrow> activeThroughout G d (push ctx (mCtxExt r')) (mRuleName r'))
                                  (mAtoms p))
                   prods)"

section \<open>k-path enumeration and covering (grammar.cpp)\<close>

text \<open>
  \<open>expandKPathPrefix\<close> returns a set of k-paths and updates \<open>pathRoots\<close> through its
  reference parameter; an enumeration is that pair. The recursion is nested through
  the two loops and threads \<open>pathRoots\<close>, so the model counts the recursion depth down
  from a fuel: \<open>None\<close> is running out of it.
\<close>

type_synonym enumeration = "kpath list \<times> ref list"

text \<open>
  The inner loop over the atoms \<open>ext\<close> of one production; \<open>rec\<close> stands for the
  recursive call.
\<close>

fun expandAtoms ::
  "(kpath \<Rightarrow> Context \<Rightarrow> ref list \<Rightarrow> (error + enumeration) option) \<Rightarrow> nat \<Rightarrow> kpath \<Rightarrow> Context
     \<Rightarrow> atom list \<Rightarrow> ref list \<Rightarrow> kpath list \<Rightarrow> (error + enumeration) option"
where
  "expandAtoms rec k prefix ctx [] pathRoots res = Some (Inr (res, pathRoots))"
| "expandAtoms rec k prefix ctx (Lit i v # exts) pathRoots res =
     (if length prefix = k - 1 then
        (case rec (prefix @ [Lit i v]) ctx pathRoots of
           None \<Rightarrow> None
         | Some (Inl e) \<Rightarrow> Some (Inl e)
         | Some (Inr (expanded, pathRoots1)) \<Rightarrow>
             expandAtoms rec k prefix ctx exts pathRoots1 (List.union res expanded))
      else expandAtoms rec k prefix ctx exts pathRoots res)"
| "expandAtoms rec k prefix ctx (Ref r # exts) pathRoots res =
     (case rec (prefix @ [Ref r]) (push ctx (mCtxExt r)) pathRoots of
        None \<Rightarrow> None
      | Some (Inl e) \<Rightarrow> Some (Inl e)
      | Some (Inr (expanded, pathRoots1)) \<Rightarrow>
          if r \<notin> set pathRoots1 then
            (case rec [Ref r] (push ctx (mCtxExt r)) (List.insert r pathRoots1) of
               None \<Rightarrow> None
             | Some (Inl e) \<Rightarrow> Some (Inl e)
             | Some (Inr (expanded2, pathRoots2)) \<Rightarrow>
                 expandAtoms rec k prefix (pop (push ctx (mCtxExt r)) (length (mCtxExt r))) exts
                   pathRoots2 (List.union (List.union res expanded) expanded2))
          else
            expandAtoms rec k prefix (pop (push ctx (mCtxExt r)) (length (mCtxExt r))) exts
              pathRoots1 (List.union res expanded))"

fun expandProds ::
  "(kpath \<Rightarrow> Context \<Rightarrow> ref list \<Rightarrow> (error + enumeration) option) \<Rightarrow> nat \<Rightarrow> kpath \<Rightarrow> Context
     \<Rightarrow> production list \<Rightarrow> ref list \<Rightarrow> kpath list \<Rightarrow> (error + enumeration) option"
where
  "expandProds rec k prefix ctx [] pathRoots res = Some (Inr (res, pathRoots))"
| "expandProds rec k prefix ctx (prd # prods) pathRoots res =
     (case expandAtoms rec k prefix ctx (mAtoms prd) pathRoots res of
        None \<Rightarrow> None
      | Some (Inl e) \<Rightarrow> Some (Inl e)
      | Some (Inr (res1, pathRoots1)) \<Rightarrow> expandProds rec k prefix ctx prods pathRoots1 res1)"

fun expandKPathPrefix ::
  "nat \<Rightarrow> grammar \<Rightarrow> nat \<Rightarrow> kpath \<Rightarrow> Context \<Rightarrow> ref list \<Rightarrow> (error + enumeration) option"
where
  "expandKPathPrefix 0 G k prefix ctx pathRoots = None"
| "expandKPathPrefix (Suc fuel) G k prefix ctx pathRoots =
     (if k = 0 then Some (Inl AssertionFailed)
      else if prefix = [] then Some (Inl AssertionFailed)
      else if length prefix = k then Some (Inr ([prefix], pathRoots))
      else
        (case last prefix of
           Lit i v \<Rightarrow> Some (Inl AssertionFailed)
         | Ref anchor_ref \<Rightarrow>
             (case getActiveProductions G (mRuleName anchor_ref) k ctx of
                Inl e \<Rightarrow> Some (Inl e)
              | Inr prods \<Rightarrow>
                  expandProds (\<lambda>prefix' ctx' pathRoots'. expandKPathPrefix fuel G k prefix' ctx' pathRoots')
                    k prefix ctx prods pathRoots [])))"

definition generateKPathSet ::
  "nat \<Rightarrow> grammar \<Rightarrow> nat \<Rightarrow> symbol \<Rightarrow> paramspecs \<Rightarrow> (error + kpath list) option"
where
  "generateKPathSet fuel G k root specs =
     (case getRootRef G root of
        Inl e \<Rightarrow> Some (Inl e)
      | Inr rootRef \<Rightarrow>
          (case expandKPathPrefix fuel G k [Ref rootRef] (Context specs) [rootRef] of
             None \<Rightarrow> None
           | Some (Inl e) \<Rightarrow> Some (Inl e)
           | Some (Inr (paths, pathRoots)) \<Rightarrow> Some (Inr paths)))"

text \<open>\<open>res.insert(pair.first.begin(), pair.first.end())\<close>.\<close>

fun emplaceValues :: "val list \<Rightarrow> val list \<Rightarrow> val list" where
  "emplaceValues [] res = res"
| "emplaceValues (v # vs) res = emplaceValues vs (set_emplace v res)"

text \<open>
  The \<open>while (!paths.empty())\<close> loop of \<open>kPathCovering\<close>, with a fuel for the
  number of iterations (\<open>None\<close>: the loop has not ended within it).
\<close>

fun coveringLoop ::
  "nat \<Rightarrow> grammar \<Rightarrow> symbol \<Rightarrow> nat \<Rightarrow> Context \<Rightarrow> kpath list \<Rightarrow> val list \<Rightarrow> nat
     \<Rightarrow> (error + val list) option"
where
  "coveringLoop 0 G rl k ctx paths res depthLimit = None"
| "coveringLoop (Suc fuel) G rl k ctx paths res depthLimit =
     (if paths = [] then Some (Inr res)
      else
        (case getRootRef G rl of
           Inl e \<Rightarrow> Some (Inl e)
         | Inr rootRef \<Rightarrow>
             (case kPathCoveringOrMinimalExpansion G [rootRef] depthLimit ctx k paths of
                Inl e \<Rightarrow> Some (Inl e)
              | Inr ((first, second), paths') \<Rightarrow>
                  if first = [] then coveringLoop fuel G rl k ctx paths' res (depthLimit + 1)
                  else coveringLoop fuel G rl k ctx paths' (emplaceValues first res) depthLimit)))"

definition kPathCovering ::
  "nat \<Rightarrow> grammar \<Rightarrow> symbol \<Rightarrow> nat \<Rightarrow> paramspecs \<Rightarrow> (error + val list) option"
where
  "kPathCovering fuel G rl k specs =
     (case generateKPathSet fuel G k rl specs of
        None \<Rightarrow> None
      | Some (Inl e) \<Rightarrow> Some (Inl e)
      | Some (Inr paths) \<Rightarrow> coveringLoop fuel G rl k (Context specs) paths [] k)"


section \<open>Derivations and the k-paths they cover\<close>









text \<open>The grammar \<open>A := B; B := 1 | 2\<close>.\<close>

definition gAB :: grammar where
  "gAB = \<lparr>mRules = [''A'' \<mapsto> \<lparr>mProductions = [Production [Ref (MkRef 1 ''B'' [])] []]\<rparr>,
                    ''B'' \<mapsto> \<lparr>mProductions = [Production [Lit 2 (Int64 1)] [], Production [Lit 3 (Int64 2)] []]\<rparr>],
          mRootRefs = [''A'' \<mapsto> MkRef 10 ''A'' [], ''B'' \<mapsto> MkRef 11 ''B'' []]\<rparr>"

section \<open>Writing values (value.cpp, operator<<)\<close>

text \<open>
  An output stream is the text written so far together with its \<open>basefield\<close> flag:
  \<open>std::hex\<close> is sticky, so the writer returns, next to the text, whether the stream is
  left in hexadecimal mode. \<open>showBase\<close> is the digit string of a non-negative integer;
  \<open>showInt64\<close> is \<open>os << int64_t\<close>, which in hexadecimal mode prints the two's complement
  bit pattern. The elements of a blob are \<open>uint8_t\<close>, that is \<open>unsigned char\<close>: the insertion
  \<open>os << byte\<close> selects the character overload and writes the byte itself, on which
  \<open>std::hex\<close> has no effect.
\<close>

definition digitChar :: "int \<Rightarrow> char" where
  "digitChar d = ''0123456789abcdef'' ! nat d"

function showBase :: "int \<Rightarrow> int \<Rightarrow> string" where
  "showBase b n = (if b < 2 \<or> n < b then [digitChar n] else showBase b (n div b) @ [digitChar (n mod b)])"
  by pat_completeness auto
termination
proof (relation "measure (\<lambda>(b, n). nat n)")
  show "wf (measure (\<lambda>(b, n). nat n))" by simp
next
  fix b n :: int
  assume "\<not> (b < 2 \<or> n < b)"
  then have "0 < n" "1 < b" by auto
  then have "n div b < n" by (rule int_div_less_self)
  with \<open>0 < n\<close> show "((b, n div b), b, n) \<in> measure (\<lambda>(b, n). nat n)" by simp
qed

declare showBase.simps [simp del]

definition showInt64 :: "bool \<Rightarrow> 64 word \<Rightarrow> string" where
  "showInt64 hex i =
     (if hex then showBase 16 (uint i)
      else if sint i < 0 then CHR ''-'' # showBase 10 (- sint i)
      else showBase 10 (sint i))"

fun escapeString :: "string \<Rightarrow> string" where
  "escapeString [] = []"
| "escapeString (c # cs) =
     (if c = CHR ''\"'' \<or> c = CHR 0x5C then CHR 0x5C # c # escapeString cs
      else c # escapeString cs)"

fun blobBytes :: "bool \<Rightarrow> 8 word list \<Rightarrow> string" where
  "blobBytes first [] = []"
| "blobBytes first (byte # bytes) =
     (if first then [] else '' '') @ ''0x'' @ [char_of (unat byte)] @ blobBytes False bytes"

fun formatValue :: "bool \<Rightarrow> val \<Rightarrow> string \<times> bool"
  and formatTail :: "bool \<Rightarrow> val list \<Rightarrow> string \<times> bool"
where
  "formatValue hex (Str s) = (''\"'' @ escapeString s @ ''\"'', hex)"
| "formatValue hex (Blob bytes) = (''['' @ blobBytes True bytes @ '']'', hex \<or> bytes \<noteq> [])"
| "formatValue hex (Bool b) = (if b then ''#t'' else ''#f'', hex)"
| "formatValue hex (Int64 i) = (showInt64 hex i, hex)"
| "formatValue hex (Sym s) = (s, hex)"
| "formatValue hex (Pair first second) =
     (case formatValue hex first of
        (s1, hex1) \<Rightarrow>
          (case formatTail hex1 second of
             (s2, hex2) \<Rightarrow> (''('' @ s1 @ s2 @ '')'', hex2)))"
| "formatValue hex Nil = (''#nil'', hex)"
| "formatTail hex [] = ([], hex)"
| "formatTail hex (v # vs) =
     (case formatValue hex v of
        (s1, hex1) \<Rightarrow>
          (case formatTail hex1 vs of
             (s2, hex2) \<Rightarrow> ('' '' @ s1 @ s2, hex2)))"

definition printValue :: "val \<Rightarrow> string" where
  "printValue v = fst (formatValue False v)"

section \<open>Input streams (the part of std::istream the readers use)\<close>

text \<open>
  An input stream is the text still to be read, the number of characters consumed, the
  state bits \<open>eofbit\<close> and \<open>failbit\<close>, and whether \<open>basefield\<close> is \<open>hex\<close>. \<open>peek\<close> and \<open>get\<close>
  are the unformatted functions; \<open>sentry\<close> is the prologue of a formatted extraction,
  which skips white space. \<open>tellg\<close> answers \<open>-1\<close> on a stream that is not good. The
  extraction into a \<open>uint8_t\<close> reads one character.
\<close>

definition isspace :: "char \<Rightarrow> bool" where
  "isspace c = (c = CHR '' '' \<or> (CHR 0x09 \<le> c \<and> c \<le> CHR 0x0D))"

definition isdigit :: "char \<Rightarrow> bool" where
  "isdigit c = (CHR ''0'' \<le> c \<and> c \<le> CHR ''9'')"

definition isalnum :: "char \<Rightarrow> bool" where
  "isalnum c = (isdigit c \<or> (CHR ''a'' \<le> c \<and> c \<le> CHR ''z'') \<or> (CHR ''A'' \<le> c \<and> c \<le> CHR ''Z''))"

definition isxdigit :: "char \<Rightarrow> bool" where
  "isxdigit c = (isdigit c \<or> (CHR ''a'' \<le> c \<and> c \<le> CHR ''f'') \<or> (CHR ''A'' \<le> c \<and> c \<le> CHR ''F''))"

definition digitValue :: "char \<Rightarrow> int" where
  "digitValue c =
     (if isdigit c then of_char c - of_char CHR ''0''
      else if CHR ''a'' \<le> c \<and> c \<le> CHR ''f'' then of_char c - of_char CHR ''a'' + 10
      else of_char c - of_char CHR ''A'' + 10)"

record istream =
  content :: string
  offset :: nat
  eofbit :: bool
  failbit :: bool
  basehex :: bool

definition istringstream :: "string \<Rightarrow> istream" where
  "istringstream str = \<lparr>content = str, offset = 0, eofbit = False, failbit = False, basehex = False\<rparr>"

definition good :: "istream \<Rightarrow> bool" where
  "good is = (\<not> eofbit is \<and> \<not> failbit is)"

definition peek :: "istream \<Rightarrow> char option \<times> istream" where
  "peek is =
     (if \<not> good is then (None, is\<lparr>failbit := True\<rparr>)
      else case content is of
             [] \<Rightarrow> (None, is\<lparr>eofbit := True\<rparr>)
           | c # cs \<Rightarrow> (Some c, is))"

definition get :: "istream \<Rightarrow> char option \<times> istream" where
  "get is =
     (if \<not> good is then (None, is\<lparr>failbit := True\<rparr>)
      else case content is of
             [] \<Rightarrow> (None, is\<lparr>eofbit := True, failbit := True\<rparr>)
           | c # cs \<Rightarrow> (Some c, is\<lparr>content := cs, offset := Suc (offset is)\<rparr>))"

definition tellg :: "istream \<Rightarrow> int" where
  "tellg is = (if good is then int (offset is) else - 1)"

function scanWhitespace :: "istream \<Rightarrow> istream" where
  "scanWhitespace is =
     (if good is then
        (case peek is of
           (Some c, is1) \<Rightarrow> if isspace c then scanWhitespace (snd (get is1)) else is1
         | (None, is1) \<Rightarrow> is1)
      else is)"
  by pat_completeness auto
termination
  by (relation "measure (\<lambda>is. length (content is))")
     (auto simp: peek_def get_def good_def split: list.splits if_splits)

declare scanWhitespace.simps [simp del]

definition sentry :: "istream \<Rightarrow> bool \<times> istream" where
  "sentry is =
     (if \<not> good is then (False, is\<lparr>failbit := True\<rparr>)
      else
        (let ws = takeWhile isspace (content is);
             is1 = is\<lparr>content := dropWhile isspace (content is), offset := offset is + length ws\<rparr>
         in if content is1 = [] then (False, is1\<lparr>eofbit := True, failbit := True\<rparr>)
            else (True, is1)))"

definition extractString :: "istream \<Rightarrow> string \<Rightarrow> string \<times> istream" where
  "extractString is str =
     (case sentry is of
        (False, is1) \<Rightarrow> (str, is1)
      | (True, is1) \<Rightarrow>
          (let w = takeWhile (\<lambda>c. \<not> isspace c) (content is1);
               rest = dropWhile (\<lambda>c. \<not> isspace c) (content is1)
           in (w, is1\<lparr>content := rest, offset := offset is1 + length w, eofbit := (rest = [])\<rparr>)))"

definition extractChar :: "istream \<Rightarrow> 8 word \<Rightarrow> 8 word \<times> istream" where
  "extractChar is byte =
     (case sentry is of
        (False, is1) \<Rightarrow> (byte, is1)
      | (True, is1) \<Rightarrow>
          (case content is1 of
             [] \<Rightarrow> (byte, is1)
           | c # cs \<Rightarrow> (of_nat (of_char c), is1\<lparr>content := cs, offset := Suc (offset is1)\<rparr>)))"

fun digitsValue :: "int \<Rightarrow> int \<Rightarrow> string \<Rightarrow> int" where
  "digitsValue base acc [] = acc"
| "digitsValue base acc (c # cs) = digitsValue base (acc * base + digitValue c) cs"

definition scanNumber :: "istream \<Rightarrow> (bool \<times> int) option \<times> istream" where
  "scanNumber is =
     (let cs0 = content is;
          neg = (cs0 \<noteq> [] \<and> hd cs0 = CHR ''-'');
          cs1 = (if cs0 \<noteq> [] \<and> (hd cs0 = CHR ''-'' \<or> hd cs0 = CHR ''+'') then tl cs0 else cs0);
          cs2 = (if basehex is \<and> length cs1 \<ge> 2 \<and> hd cs1 = CHR ''0''
                    \<and> (cs1 ! 1 = CHR ''x'' \<or> cs1 ! 1 = CHR ''X'') then drop 2 cs1 else cs1);
          isd = (if basehex is then isxdigit else isdigit);
          ds = takeWhile isd cs2;
          rest = dropWhile isd cs2;
          is1 = is\<lparr>content := rest, offset := offset is + (length cs0 - length rest),
                    eofbit := (rest = [])\<rparr>
      in if ds = [] then (None, is1\<lparr>failbit := True\<rparr>)
         else (Some (neg, digitsValue (if basehex is then 16 else 10) 0 ds), is1))"

definition extractInt64 :: "istream \<Rightarrow> 64 word \<Rightarrow> 64 word \<times> istream" where
  "extractInt64 is v =
     (case sentry is of
        (False, is1) \<Rightarrow> (v, is1)
      | (True, is1) \<Rightarrow>
          (case scanNumber is1 of
             (None, is2) \<Rightarrow> (0, is2)
           | (Some (neg, n), is2) \<Rightarrow>
               if neg then
                 (if n \<le> 2 ^ 63 then (word_of_int (- n), is2)
                  else (word_of_int (- (2 ^ 63)), is2\<lparr>failbit := True\<rparr>))
               else
                 (if n < 2 ^ 63 then (word_of_int n, is2)
                  else (word_of_int (2 ^ 63 - 1), is2\<lparr>failbit := True\<rparr>))))"

definition extractUInt64 :: "istream \<Rightarrow> 64 word \<Rightarrow> 64 word \<times> istream" where
  "extractUInt64 is v =
     (case sentry is of
        (False, is1) \<Rightarrow> (v, is1)
      | (True, is1) \<Rightarrow>
          (case scanNumber is1 of
             (None, is2) \<Rightarrow> (0, is2)
           | (Some (neg, n), is2) \<Rightarrow>
               if n < 2 ^ 64 then (word_of_int (if neg then - n else n), is2)
               else (- 1, is2\<lparr>failbit := True\<rparr>)))"

section \<open>Reading values (value.cpp, operator>>)\<close>

text \<open>
  The reader dispatches on the next character. Its loops over the elements of a list
  end only when the stream stops being good or the closing character is next, and an
  element that starts with none of the expected characters consumes nothing: the
  recursion is therefore bounded by fuel, and \<open>None\<close> is the reader that has not
  returned. The case of \<open>#\<close> has no \<open>break\<close> and falls into the default case.
\<close>

definition Symbol :: "string \<Rightarrow> error + symbol" where
  "Symbol s = (if list_all (\<lambda>c. isalnum c \<or> c = CHR ''_'') s then Inr s else Inl SymbolNotAlphanumeric)"


definition peekIs :: "(char \<Rightarrow> bool) \<Rightarrow> istream \<Rightarrow> bool \<times> istream" where
  "peekIs P is = (case peek is of (Some c, is1) \<Rightarrow> (P c, is1) | (None, is1) \<Rightarrow> (False, is1))"

lemma extractChar_shrinks:
  assumes "extractChar is b = (byte, is2)"
  shows "(\<not> good is \<longrightarrow> \<not> good is2 \<and> content is2 = content is)
       \<and> (good is \<longrightarrow> (content is = [] \<longrightarrow> \<not> good is2 \<and> content is2 = [])
                    \<and> (content is \<noteq> [] \<longrightarrow> length (content is2) < length (content is)))"
proof -
  have d: "length (dropWhile isspace (content is)) \<le> length (content is)"
    by (rule length_dropWhile_le)
  show ?thesis
  proof (cases "dropWhile isspace (content is)")
    case Nil
    with assms show ?thesis
      by (cases "content is") (auto simp: extractChar_def sentry_def good_def Let_def split: if_splits)
  next
    case (Cons c cs)
    with assms d show ?thesis
      by (auto simp: extractChar_def sentry_def good_def Let_def split: if_splits)
  qed
qed

function parseBytes :: "istream \<Rightarrow> 8 word list \<Rightarrow> 8 word list \<times> istream" where
  "parseBytes is bytes =
     (if good is then
        (case peek is of
           (Some c, is1) \<Rightarrow>
             if c \<noteq> CHR '']'' then
               (case extractChar (is1\<lparr>basehex := True\<rparr>) 0 of
                  (byte, is2) \<Rightarrow> parseBytes is2 (bytes @ [byte]))
             else (bytes, is1)
         | (None, is1) \<Rightarrow>
             (case extractChar (is1\<lparr>basehex := True\<rparr>) 0 of
                (byte, is2) \<Rightarrow> parseBytes is2 (bytes @ [byte])))
      else (bytes, is))"
  by pat_completeness auto
termination
proof (relation "measure (\<lambda>(is, bytes). length (content is) + (if good is then 1 else 0))", goal_cases)
  case 1
  show ?case by simp
next
  case (2 "is" bytes x y xa ya)
  from 2(1,2,3) have "\<not> good y" "content y = content is"
    by (auto simp: peek_def good_def split: if_splits list.splits)
  with extractChar_shrinks [of "y\<lparr>basehex := True\<rparr>" 0 xa ya] 2(4)
  have "\<not> good ya" "content ya = content is"
    by (auto simp: good_def)
  with 2(1) show ?case by simp
next
  case (3 "is" bytes x y x2 xa ya)
  from 3(1,2,3) have "good y" "content y = content is" "content is \<noteq> []"
    by (auto simp: peek_def good_def split: if_splits list.splits)
  with extractChar_shrinks [of "y\<lparr>basehex := True\<rparr>" 0 xa ya] 3(5)
  have "length (content ya) < length (content is)"
    by (auto simp: good_def)
  with 3(1) show ?case by simp
qed

declare parseBytes.simps [simp del]

text \<open>
  The loop of the string case. Its local \<open>c\<close> is assigned by \<open>is.get(c)\<close> only when a
  character is extracted: when \<open>get\<close> fails, at the end of the input, \<open>c\<close> keeps the
  character read before, and the loop body goes on with that character. On entry \<open>c\<close>
  holds the opening quote.
\<close>

function parseChars :: "istream \<Rightarrow> string \<Rightarrow> char \<Rightarrow> error + (string \<times> istream)" where
  "parseChars is tmp c =
     (if good is then
        (case peek is of
           (p, is1) \<Rightarrow>
             if p \<noteq> Some (CHR 0x22) then
               (case get is1 of
                  (r1, is2) \<Rightarrow>
                    (let c1 = (case r1 of Some x \<Rightarrow> x | None \<Rightarrow> c)
                     in if c1 = CHR 0x5C then
                          (if \<not> good is2 then Inl IncompleteStringEscape
                           else
                             (case get is2 of
                                (r2, is3) \<Rightarrow>
                                  (let c2 = (case r2 of Some x \<Rightarrow> x | None \<Rightarrow> c1)
                                   in parseChars is3 (tmp @ [c2]) c2)))
                        else parseChars is2 (tmp @ [c1]) c1))
             else Inr (tmp, is1))
      else Inr (tmp, is))"
  by pat_completeness auto
termination
  by (relation "measure (\<lambda>(is, tmp, c). length (content is) + (if good is then 1 else 0))")
     (auto simp: peek_def get_def good_def split: if_splits list.splits prod.splits option.splits)

declare parseChars.simps [simp del]

function readSpecial :: "istream \<Rightarrow> string \<Rightarrow> string \<times> istream" where
  "readSpecial is tmp =
     (case get is of
        (c, is1) \<Rightarrow>
          (let tmp1 = (case c of Some c' \<Rightarrow> tmp @ [c'] | None \<Rightarrow> tmp)
           in if good is1 then
                (case peekIs isalnum is1 of
                   (True, is2) \<Rightarrow> readSpecial is2 tmp1
                 | (False, is2) \<Rightarrow> (tmp1, is2))
              else (tmp1, is1)))"
  by pat_completeness auto
termination
  by (relation "measure (\<lambda>(is, tmp). length (content is))")
     (auto simp: peekIs_def peek_def get_def good_def split: if_splits list.splits prod.splits option.splits)

declare readSpecial.simps [simp del]

function readSymbol :: "istream \<Rightarrow> string \<Rightarrow> string \<times> istream" where
  "readSymbol is tmp =
     (case get is of
        (c, is1) \<Rightarrow>
          (let tmp1 = (case c of Some c' \<Rightarrow> tmp @ [c'] | None \<Rightarrow> tmp)
           in if good is1 then
                (case peekIs (\<lambda>c. c = CHR ''_'') is1 of
                   (True, is2) \<Rightarrow> readSymbol is2 tmp1
                 | (False, is2) \<Rightarrow>
                     (case peekIs isalnum is2 of
                        (True, is3) \<Rightarrow> readSymbol is3 tmp1
                      | (False, is3) \<Rightarrow> (tmp1, is3)))
              else (tmp1, is1)))"
  by pat_completeness auto
termination
  by (relation "measure (\<lambda>(is, tmp). length (content is))")
     (auto simp: peekIs_def peek_def get_def good_def split: if_splits list.splits prod.splits option.splits)

declare readSymbol.simps [simp del]

definition parseDefault :: "istream \<Rightarrow> val \<Rightarrow> error + (val \<times> istream)" where
  "parseDefault is val =
     (case peekIs (\<lambda>c. c = CHR ''-'') is of
        (dash, is1) \<Rightarrow>
          (case (if dash then (True, is1) else peekIs isdigit is1) of
             (True, is2) \<Rightarrow>
               (case extractInt64 is2 0 of (tmp, is3) \<Rightarrow> Inr (Int64 tmp, is3))
           | (False, is2) \<Rightarrow>
               (case peekIs (\<lambda>c. c = CHR ''_'') is2 of
                  (underscore, is3) \<Rightarrow>
                    (case (if underscore then (True, is3) else peekIs isalnum is3) of
                       (True, is4) \<Rightarrow>
                         (case readSymbol is4 [] of
                            (tmp, is5) \<Rightarrow>
                              (case Symbol tmp of
                                 Inl e \<Rightarrow> Inl e
                               | Inr name \<Rightarrow> Inr (Sym name, is5)))
                     | (False, is4) \<Rightarrow> Inr (val, is4)))))"

fun parseValue :: "nat \<Rightarrow> istream \<Rightarrow> val \<Rightarrow> (error + (val \<times> istream)) option"
  and parseElements :: "nat \<Rightarrow> istream \<Rightarrow> val list \<Rightarrow> (error + (val list \<times> istream)) option"
where
  "parseValue 0 is val = None"
| "parseValue (Suc fuel) is val =
     (let is0 = scanWhitespace is
      in if \<not> good is0 then Some (Inr (val, is0))
         else
           (case peek is0 of
              (None, is1) \<Rightarrow> Some (Inr (val, is1))
            | (Some c, is1) \<Rightarrow>
                if c = CHR ''('' then
                  (case parseElements fuel (snd (get is1)) [] of
                     None \<Rightarrow> None
                   | Some (Inl e) \<Rightarrow> Some (Inl e)
                   | Some (Inr (vals, is2)) \<Rightarrow>
                       if good is2 then
                         (case peekIs (\<lambda>c. c = CHR '')'') is2 of
                            (True, is3) \<Rightarrow> Some (Inr (ValueOfVector vals, snd (get is3)))
                          | (False, is3) \<Rightarrow> Some (Inl IncompletePairList))
                       else Some (Inl IncompletePairList))
                else if c = CHR ''['' then
                  (case parseBytes (snd (get is1)) [] of
                     (bytes, is2) \<Rightarrow>
                       if good is2 then
                         (case peekIs (\<lambda>c. c = CHR '']'') is2 of
                            (True, is3) \<Rightarrow> Some (Inr (Blob bytes, snd (get is3)))
                          | (False, is3) \<Rightarrow> Some (Inl IncompleteBlob))
                       else Some (Inl IncompleteBlob))
                else if c = CHR 0x22 then
                  (case parseChars (snd (get is1)) [] (CHR 0x22) of
                     Inl e \<Rightarrow> Some (Inl e)
                   | Inr (tmp, is2) \<Rightarrow>
                       if good is2 then
                         (case peekIs (\<lambda>c. c = CHR 0x22) is2 of
                            (True, is3) \<Rightarrow> Some (Inr (Str tmp, snd (get is3)))
                          | (False, is3) \<Rightarrow> Some (Inl IncompleteString))
                       else Some (Inl IncompleteString))
                else if c = CHR ''#'' then
                  (case readSpecial is1 [] of
                     (tmp, is2) \<Rightarrow>
                       if tmp = ''#t'' then Some (parseDefault is2 (Bool True))
                       else if tmp = ''#f'' then Some (parseDefault is2 (Bool False))
                       else if tmp = ''#nil'' then Some (parseDefault is2 Nil)
                       else Some (Inl (UnknownSpecialSymbol tmp)))
                else Some (parseDefault is1 val)))"
| "parseElements 0 is vals = None"
| "parseElements (Suc fuel) is vals =
     (if good is then
        (case peek is of
           (p, is1) \<Rightarrow>
             if p \<noteq> Some (CHR '')'') then
               (case parseValue fuel is1 Nil of
                  None \<Rightarrow> None
                | Some (Inl e) \<Rightarrow> Some (Inl e)
                | Some (Inr (tmp, is2)) \<Rightarrow> parseElements fuel is2 (vals @ [tmp]))
             else Some (Inr (vals, is1)))
      else Some (Inr (vals, is)))"

definition readBack :: "nat \<Rightarrow> val \<Rightarrow> (error + val) option" where
  "readBack fuel v =
     (case parseValue fuel (istringstream (printValue v)) Nil of
        None \<Rightarrow> None
      | Some (Inl e) \<Rightarrow> Some (Inl e)
      | Some (Inr (nval, is)) \<Rightarrow> Some (Inr nval))"

section \<open>Reading plans and transcripts (corpus.cpp, util.h)\<close>

text \<open>
  \<open>XXHash64\<close> is third-party code: a hasher is modelled by the bytes added to it, and
  the digest is a parameter \<open>xxhash\<close> of the bytes added. The readers are those of the
  variant of corpus.cpp whose transcript header always carries the plan hash.
\<close>

type_synonym XXHash64 = string

definition addStringToHash :: "XXHash64 \<Rightarrow> string \<Rightarrow> XXHash64" where
  "addStringToHash h s = h @ s"

definition addValueToHash :: "XXHash64 \<Rightarrow> val \<Rightarrow> XXHash64" where
  "addValueToHash h v = addStringToHash h (printValue v)"

definition addSymbolToHash :: "XXHash64 \<Rightarrow> symbol \<Rightarrow> XXHash64" where
  "addSymbolToHash h s = addStringToHash h s"

definition addKeyValueToHash :: "XXHash64 \<Rightarrow> symbol \<Rightarrow> val \<Rightarrow> XXHash64" where
  "addKeyValueToHash h k v = addValueToHash (addStringToHash (addSymbolToHash h k) ''='') v"

definition addToHash :: "XXHash64 \<Rightarrow> plan \<Rightarrow> XXHash64" where
  "addToHash h p =
     foldl (\<lambda>h (k, v). addKeyValueToHash h k v)
       (addStringToHash (addSymbolToHash h (mTestName p)) '':'') (mParams p)"

definition getHashCode :: "(string \<Rightarrow> 64 word) \<Rightarrow> plan \<Rightarrow> 64 word" where
  "getHashCode xxhash p = xxhash (addToHash [] p)"

definition expectVal :: "istream \<Rightarrow> 64 word \<Rightarrow> 64 word \<Rightarrow> error option" where
  "expectVal is expected got =
     (if expected \<noteq> got
      then Some (InputFailure (tellg is) (showInt64 False expected) (showInt64 False got))
      else None)"

definition expectStr :: "istream \<Rightarrow> string \<Rightarrow> string \<Rightarrow> error option" where
  "expectStr is expected got =
     (if expected \<noteq> got then Some (InputFailure (tellg is) expected got) else None)"

definition expectNonemptyStr :: "istream \<Rightarrow> string \<Rightarrow> error option" where
  "expectNonemptyStr is s = (if s = [] then Some (EmptyString (tellg is)) else None)"

definition extractSymbol :: "istream \<Rightarrow> error + (symbol \<times> istream)" where
  "extractSymbol is =
     (case extractString is [] of
        (tmp, is1) \<Rightarrow>
          (case Symbol tmp of
             Inl e \<Rightarrow> Inl e
           | Inr name \<Rightarrow> Inr (name, is1)))"

fun readParams :: "nat \<Rightarrow> istream \<Rightarrow> plan \<Rightarrow> (error + (plan \<times> istream)) option" where
  "readParams 0 is p = None"
| "readParams (Suc fuel) is p =
     (if good is then
        (case peekIs (\<lambda>c. c = CHR ''p'') is of
           (True, is0) \<Rightarrow>
             (case extractString is0 [] of
                (PARAM, is1) \<Rightarrow>
                  (case extractSymbol is1 of
                     Inl e \<Rightarrow> Some (Inl e)
                   | Inr (pname, is2) \<Rightarrow>
                       (case extractString is2 [] of
                          (EQ, is3) \<Rightarrow>
                            (case parseValue fuel is3 Nil of
                               None \<Rightarrow> None
                             | Some (Inl e) \<Rightarrow> Some (Inl e)
                             | Some (Inr (v, is4)) \<Rightarrow>
                                 (case expectStr is4 ''param:'' PARAM of
                                    Some e \<Rightarrow> Some (Inl e)
                                  | None \<Rightarrow>
                                      (case expectStr is4 ''='' EQ of
                                         Some e \<Rightarrow> Some (Inl e)
                                       | None \<Rightarrow>
                                           (case expectNonemptyStr is4 pname of
                                              Some e \<Rightarrow> Some (Inl e)
                                            | None \<Rightarrow>
                                                readParams fuel (scanWhitespace is4)
                                                  (addParam p pname v))))))))
         | (False, is0) \<Rightarrow> Some (Inr (p, is0)))
      else Some (Inr (p, is)))"

definition readPlan :: "nat \<Rightarrow> istream \<Rightarrow> plan \<Rightarrow> (error + (plan \<times> istream)) option" where
  "readPlan fuel is p = readParams fuel (scanWhitespace is) (p\<lparr>mParams := []\<rparr>)"

record transcript =
  mPlan :: plan
  mVars :: "(symbol \<times> val \<times> bool) list"

definition Plan :: "symbol \<Rightarrow> plan" where
  "Plan tname = \<lparr>mTestName = tname, mParams = []\<rparr>"

definition Transcript :: "plan \<Rightarrow> transcript" where
  "Transcript p = \<lparr>mPlan = p, mVars = []\<rparr>"

definition getTestName :: "transcript \<Rightarrow> symbol" where
  "getTestName t = mTestName (mPlan t)"

fun readVars :: "nat \<Rightarrow> istream \<Rightarrow> (symbol \<times> val \<times> bool) list
    \<Rightarrow> (error + ((symbol \<times> val \<times> bool) list \<times> istream)) option" where
  "readVars 0 is vars = None"
| "readVars (Suc fuel) is vars =
     (if good is then
        (case peekIs (\<lambda>c. c = CHR ''c'') is of
           (isCheck, is0) \<Rightarrow>
             (case (if isCheck then (True, is0) else peekIs (\<lambda>c. c = CHR ''t'') is0) of
                (True, is1) \<Rightarrow>
                  (case extractString is1 [] of
                     (KW, is2) \<Rightarrow>
                       (case extractSymbol is2 of
                          Inl e \<Rightarrow> Some (Inl e)
                        | Inr (vname, is3) \<Rightarrow>
                            (case extractString is3 [] of
                               (EQ, is4) \<Rightarrow>
                                 (case parseValue fuel is4 Nil of
                                    None \<Rightarrow> None
                                  | Some (Inl e) \<Rightarrow> Some (Inl e)
                                  | Some (Inr (v, is5)) \<Rightarrow>
                                      (case expectStr is5 ''='' EQ of
                                         Some e \<Rightarrow> Some (Inl e)
                                       | None \<Rightarrow>
                                           (case expectNonemptyStr is5 vname of
                                              Some e \<Rightarrow> Some (Inl e)
                                            | None \<Rightarrow>
                                                if KW \<noteq> ''check:'' \<and> KW \<noteq> ''track:''
                                                then Some (Inl (ExpectingCheckOrTrack KW (tellg is5)))
                                                else readVars fuel (scanWhitespace is5)
                                                       (vars @ [(vname, v, KW = ''track:'')])))))))
              | (False, is1) \<Rightarrow> Some (Inr (vars, is1))))
      else Some (Inr (vars, is)))"

definition readHeader :: "istream \<Rightarrow> error + (symbol \<times> 64 word \<times> istream)" where
  "readHeader is =
     (case extractString is [] of
        (HASHES, is1) \<Rightarrow>
          (case extractString is1 [] of
             (TRANSCRIPT, is2) \<Rightarrow>
               (case extractSymbol is2 of
                  Inl e \<Rightarrow> Inl e
                | Inr (tname, is3) \<Rightarrow>
                    (case extractUInt64 (is3\<lparr>basehex := True\<rparr>) 0 of
                       (plan_hash, is4) \<Rightarrow>
                         (let is5 = is4\<lparr>basehex := False\<rparr>
                          in case expectNonemptyStr is5 tname of
                               Some e \<Rightarrow> Inl e
                             | None \<Rightarrow> Inr (tname, plan_hash, is5))))))"

definition readTranscript :: "nat \<Rightarrow> (string \<Rightarrow> 64 word) \<Rightarrow> istream
    \<Rightarrow> (error + (transcript \<times> istream)) option" where
  "readTranscript fuel xxhash is =
     (case readHeader is of
        Inl e \<Rightarrow> Some (Inl e)
      | Inr (tname, plan_hash, is1) \<Rightarrow>
          (case readPlan fuel is1 (Plan tname) of
             None \<Rightarrow> None
           | Some (Inl e) \<Rightarrow> Some (Inl e)
           | Some (Inr (p, is2)) \<Rightarrow>
               (case expectVal is2 plan_hash (getHashCode xxhash p) of
                  Some e \<Rightarrow> Some (Inl e)
                | None \<Rightarrow>
                    (case readVars fuel (scanWhitespace is2) [] of
                       None \<Rightarrow> None
                     | Some (Inl e) \<Rightarrow> Some (Inl e)
                     | Some (Inr (vars, is3)) \<Rightarrow>
                         Some (Inr ((Transcript p)\<lparr>mVars := vars\<rparr>, is3))))))"

definition lengthHash :: "string \<Rightarrow> 64 word" where
  "lengthHash s = of_nat (length s)"

section \<open>Plans from coverings and from random values (corpus.cpp, grammar.cpp, util.h)\<close>












section \<open>Corpus (corpus.cpp)\<close>

text \<open>
  \<open>Corpus::mTranscripts\<close> maps a test name to a \<open>std::set<Transcript>\<close>, ordered by
  \<open>Transcript::operator<\<close>, that is by plan and then by variables; \<open>operator[]\<close> gives
  the empty set for a name that is not there. \<open>addTranscript\<close> asserts that the
  transcript was inserted; \<open>updateTranscript\<close> erases the first transcript with the
  same plan, asserts that there was one, and inserts.
\<close>

definition addTrackedVar :: "transcript \<Rightarrow> symbol \<Rightarrow> val \<Rightarrow> transcript" where
  "addTrackedVar t var v = t\<lparr>mVars := mVars t @ [(var, v, True)]\<rparr>"

definition addCheckedVar :: "transcript \<Rightarrow> symbol \<Rightarrow> val \<Rightarrow> transcript" where
  "addCheckedVar t var v = t\<lparr>mVars := mVars t @ [(var, v, False)]\<rparr>"



type_synonym corpus = "symbol \<Rightarrow> transcript list"




section \<open>Administering a test (test.cpp, test.h)\<close>


record 'g Test =
  mGram :: grammar
  mCorp :: corpus
  mGen :: 'g
  mFailed :: bool
  mTrajHasher :: XXHash64
  mTrajectory :: "64 word"
  mTranscript :: transcript
  mSeedSpecs :: "paramspecs list"


definition trace :: "'g Test \<Rightarrow> symbol \<Rightarrow> val \<Rightarrow> 'g Test" where
  "trace T vn seen = T\<lparr>mTrajHasher := addKeyValueToHash (mTrajHasher T) vn seen\<rparr>"

definition check :: "'g Test \<Rightarrow> symbol \<Rightarrow> val \<Rightarrow> 'g Test" where
  "check T vn seen = T\<lparr>mTranscript := addCheckedVar (mTranscript T) vn seen\<rparr>"

definition track :: "'g Test \<Rightarrow> symbol \<Rightarrow> val \<Rightarrow> 'g Test" where
  "track T vn seen = (let T1 = trace T vn seen in T1\<lparr>mTranscript := addTrackedVar (mTranscript T1) vn seen\<rparr>)"





























section \<open>Properties of Plan\<close>

lemma map_emplace_bound:
  "map_find k m = Some v0 \<Longrightarrow> map_emplace k v m = m"
  by (induction m) (auto split: if_splits)

text \<open>
  C10. When the parameter name is already bound in the plan, \<open>addParam\<close> changes
  nothing and cannot fail: the plan is the same afterwards and \<open>getParam\<close> still
  returns the value bound first.
\<close>

theorem addParam_bound_keeps_binding:
  assumes "getParam p n = Inr v0"
  shows "addParam p n v = p \<and> getParam (addParam p n v) n = Inr v0"
proof -
  from assms have "map_find n (mParams p) = Some v0"
    by (simp add: getParam_def split: option.splits)
  then have "map_emplace n v (mParams p) = mParams p"
    by (rule map_emplace_bound)
  then have "addParam p n v = p"
    by (simp add: addParam_def)
  with assms show ?thesis by simp
qed

theorem addParam_bound_keeps_binding_witness:
  "getParam \<lparr>mTestName = ''T'', mParams = [(''n'', Int64 1)]\<rparr> ''n'' = Inr (Int64 1)
   \<and> addParam \<lparr>mTestName = ''T'', mParams = [(''n'', Int64 1)]\<rparr> ''n'' (Int64 2)
       = \<lparr>mTestName = ''T'', mParams = [(''n'', Int64 1)]\<rparr>
   \<and> getParam (addParam \<lparr>mTestName = ''T'', mParams = [(''n'', Int64 1)]\<rparr> ''n'' (Int64 2)) ''n''
       = Inr (Int64 1)"
proof -
  have h: "getParam \<lparr>mTestName = ''T'', mParams = [(''n'', Int64 1)]\<rparr> ''n'' = Inr (Int64 1)"
    by (simp add: getParam_def)
  from addParam_bound_keeps_binding [OF h, of "Int64 2"] h show ?thesis by simp
qed

section \<open>Properties of the active productions\<close>

lemma scanHasRefs_iff: "scanHasRefs as = (\<exists>a\<in>set as. isRef a)"
  by (induction as) auto

lemma mHasRefs_Production: "mHasRefs (Production as req) = (\<exists>a\<in>set as. isRef a)"
  by (simp add: Production_def scanHasRefs_iff)

lemma hasAll_iff: "hasAll ctx ss = (\<forall>s\<in>set ss. has ctx s)"
  by (induction ss) auto

lemma activeLoop_eq:
  "activeLoop d ctx prods act sk =
     (act @ filter (\<lambda>p. \<not> (d = 1 \<and> mHasRefs p) \<and> hasAll ctx (mCtxReq p)) prods,
      sk \<or> (d = 1 \<and> (\<exists>p\<in>set prods. mHasRefs p)))"
  by (induction prods arbitrary: act sk) auto

text \<open>
  C7. For a rule \<open>R\<close> of the grammar (one with a non-empty production list, whose
  productions carry the flag their constructor computes), \<open>getActiveProductions\<close>
  returns, in declaration order, exactly the productions whose required context names
  are all in the context, leaving out those that contain a \<open>Ref\<close> when and only when
  the depth limit is 1. If nothing is left it fails: with the
  needs-a-nonterminal-production error when some production was left out for its
  \<open>Ref\<close>s, with the no-active-productions error otherwise; both carry the rule name.
\<close>

theorem getActiveProductions_spec:
  assumes "getProductions G R = Inr prods"
    and "\<forall>p\<in>set prods. mHasRefs p = (\<exists>a\<in>set (mAtoms p). isRef a)"
  shows "getActiveProductions G R d ctx =
     (let kept = filter (\<lambda>p. (\<forall>s\<in>set (mCtxReq p). has ctx s)
                              \<and> \<not> (d = 1 \<and> (\<exists>a\<in>set (mAtoms p). isRef a))) prods
      in if kept \<noteq> [] then Inr kept
         else if d = 1 \<and> (\<exists>p\<in>set prods. \<exists>a\<in>set (mAtoms p). isRef a)
              then Inl (NeedsNonterminalProduction R)
              else Inl (NoActiveProductions R))"
proof -
  have f: "filter (\<lambda>p. \<not> (d = 1 \<and> mHasRefs p) \<and> hasAll ctx (mCtxReq p)) prods
         = filter (\<lambda>p. (\<forall>s\<in>set (mCtxReq p). has ctx s)
                              \<and> \<not> (d = 1 \<and> (\<exists>a\<in>set (mAtoms p). isRef a))) prods"
    using assms(2) by (intro filter_cong) (auto simp: hasAll_iff)
  have s: "(\<exists>p\<in>set prods. mHasRefs p) = (\<exists>p\<in>set prods. \<exists>a\<in>set (mAtoms p). isRef a)"
    using assms(2) by auto
  have step: "getActiveProductions G R d ctx =
     (let kept = filter (\<lambda>p. \<not> (d = 1 \<and> mHasRefs p) \<and> hasAll ctx (mCtxReq p)) prods
      in if kept \<noteq> [] then Inr kept
         else if d = 1 \<and> (\<exists>p\<in>set prods. mHasRefs p)
              then Inl (NeedsNonterminalProduction R)
              else Inl (NoActiveProductions R))"
    using assms(1) by (auto simp: getActiveProductions_def activeLoop_eq Let_def)
  show ?thesis unfolding step f s ..
qed

theorem getActiveProductions_spec_witness:
  "getProductions \<lparr>mRules = [''A'' \<mapsto> \<lparr>mProductions =
        [Production [Lit 0 (Int64 1)] [], Production [Ref (MkRef 1 ''A'' [])] [],
         Production [Lit 2 (Int64 2)] [''x'']]\<rparr>], mRootRefs = Map.empty\<rparr> ''A''
     = Inr [Production [Lit 0 (Int64 1)] [], Production [Ref (MkRef 1 ''A'' [])] [],
            Production [Lit 2 (Int64 2)] [''x'']]
   \<and> getActiveProductions \<lparr>mRules = [''A'' \<mapsto> \<lparr>mProductions =
        [Production [Lit 0 (Int64 1)] [], Production [Ref (MkRef 1 ''A'' [])] [],
         Production [Lit 2 (Int64 2)] [''x'']]\<rparr>], mRootRefs = Map.empty\<rparr> ''A'' 1 (Context [])
     = Inr [Production [Lit 0 (Int64 1)] []]"
proof -
  let ?ps = "[Production [Lit 0 (Int64 1)] [], Production [Ref (MkRef 1 ''A'' [])] [],
              Production [Lit 2 (Int64 2)] [''x'']]"
  let ?G = "\<lparr>mRules = [''A'' \<mapsto> \<lparr>mProductions = ?ps\<rparr>], mRootRefs = Map.empty\<rparr>"
  have h1: "getProductions ?G ''A'' = Inr ?ps"
    by (simp add: getProductions_def)
  have h2: "\<forall>p\<in>set ?ps. mHasRefs p = (\<exists>a\<in>set (mAtoms p). isRef a)"
    by (simp add: mHasRefs_Production) (simp add: Production_def)
  have "has (Context []) ''x'' = False"
    by (simp add: has_def Context_def)
  with getActiveProductions_spec [OF h1 h2, of 1 "Context []"] h1 show ?thesis
    by (simp add: Production_def Let_def)
qed

section \<open>Properties of the cyclical zip\<close>

lemma set_set_emplace [simp]: "set (set_emplace x xs) = insert x (set xs)"
  by (induction xs) auto

lemma sorted_set_emplace: "sorted_wrt (<) xs \<Longrightarrow> sorted_wrt (<) (set_emplace x xs)"
  by (induction xs) auto

lemma cycleLoop_result:
  assumes "vecs \<noteq> []" "ext \<noteq> []"
    and "i = t mod length vecs" "j = t mod length ext"
    and "cI = (length vecs \<le> t)" "cJ = (length ext \<le> t)"
    and "t \<le> max (length vecs) (length ext)"
    and "set res = (\<lambda>s. comb (vecs ! (s mod length vecs)) (ext ! (s mod length ext))) ` {..<t}"
    and "sorted_wrt (<) res"
  shows "\<exists>r. cycleLoop comb vecs ext i j cI cJ res = Inr r
           \<and> set r = (\<lambda>s. comb (vecs ! (s mod length vecs)) (ext ! (s mod length ext)))
                        ` {..<max (length vecs) (length ext)}
           \<and> sorted_wrt (<) r"
  using assms
proof (induction comb vecs ext i j cI cJ res arbitrary: t rule: cycleLoop.induct)
  case (1 comb vecs ext i j cI cJ res)
  let ?m = "length vecs" and ?n = "length ext"
  let ?f = "\<lambda>s. comb (vecs ! (s mod ?m)) (ext ! (s mod ?n))"
  have m: "0 < ?m" and n: "0 < ?n" using "1.prems"(1,2) by simp_all
  show ?case
  proof (cases "cI \<and> cJ")
    case True
    with "1.prems"(5,6,7) have "t = max ?m ?n" by simp
    with True "1.prems"(8,9) show ?thesis by (simp add: cycleLoop.simps)
  next
    case False
    have i: "i < ?m" and j: "j < ?n" using "1.prems"(3,4) m n by simp_all
    have t: "t < max ?m ?n" using False "1.prems"(5,6) by auto
    let ?i' = "if Suc i = ?m then 0 else Suc i" and ?j' = "if Suc j = ?n then 0 else Suc j"
    let ?cI' = "if Suc i = ?m then True else cI" and ?cJ' = "if Suc j = ?n then True else cJ"
    let ?res' = "set_emplace (comb (vecs ! i) (ext ! j)) res"
    have i': "?i' = Suc t mod ?m" using "1.prems"(3) i by (simp add: mod_Suc)
    have j': "?j' = Suc t mod ?n" using "1.prems"(4) j by (simp add: mod_Suc)
    have cI': "?cI' = (?m \<le> Suc t)"
    proof (cases "Suc i = ?m")
      case True
      have "i \<le> t" using "1.prems"(3) by simp
      with True show ?thesis by simp
    next
      case F: False
      have "?m \<noteq> Suc t"
      proof
        assume e: "?m = Suc t"
        then have "t mod ?m = t" by simp
        with "1.prems"(3) e F show False by simp
      qed
      with F "1.prems"(5) show ?thesis by auto
    qed
    have cJ': "?cJ' = (?n \<le> Suc t)"
    proof (cases "Suc j = ?n")
      case True
      have "j \<le> t" using "1.prems"(4) by simp
      with True show ?thesis by simp
    next
      case F: False
      have "?n \<noteq> Suc t"
      proof
        assume e: "?n = Suc t"
        then have "t mod ?n = t" by simp
        with "1.prems"(4) e F show False by simp
      qed
      with F "1.prems"(6) show ?thesis by auto
    qed
    have st: "Suc t \<le> max ?m ?n" using t by simp
    have res': "set ?res' = ?f ` {..<Suc t}"
      using "1.prems"(3,4,8) by (simp add: lessThan_Suc)
    have so: "sorted_wrt (<) ?res'" using "1.prems"(9) by (rule sorted_set_emplace)
    from "1.IH" [OF False _ "1.prems"(1,2) i' j' cI' cJ' st res' so] i j
    have "\<exists>r. cycleLoop comb vecs ext ?i' ?j' ?cI' ?cJ' ?res' = Inr r
           \<and> set r = ?f ` {..<max ?m ?n} \<and> sorted_wrt (<) r" by simp
    moreover have "cycleLoop comb vecs ext i j cI cJ res
        = cycleLoop comb vecs ext ?i' ?j' ?cI' ?cJ' ?res'"
      using False i j by (subst cycleLoop.simps) auto
    ultimately show ?thesis by simp
  qed
qed

lemma extendByCyclingWith_result:
  assumes "vecs \<noteq> []" "ext \<noteq> []"
  shows "\<exists>r. extendByCyclingWith comb vecs ext = Inr r
           \<and> set r = (\<lambda>s. comb (vecs ! (s mod length vecs)) (ext ! (s mod length ext)))
                        ` {..<max (length vecs) (length ext)}
           \<and> sorted_wrt (<) r"
  using cycleLoop_result [of vecs ext 0 0 0 False False "[]" comb] assms
  by (simp add: extendByCyclingWith_def)

lemma cycling_inj:
  assumes "distinct vecs" "distinct ext" "vecs \<noteq> []" "ext \<noteq> []"
    and "\<And>v e v' e'. v \<in> set vecs \<Longrightarrow> v' \<in> set vecs \<Longrightarrow> e \<in> set ext \<Longrightarrow> e' \<in> set ext
            \<Longrightarrow> comb v e = comb v' e' \<Longrightarrow> v = v' \<and> e = e'"
  shows "inj_on (\<lambda>s. comb (vecs ! (s mod length vecs)) (ext ! (s mod length ext)))
           {..<max (length vecs) (length ext)}"
proof (rule inj_onI)
  fix s s' assume s: "s \<in> {..<max (length vecs) (length ext)}"
    and s': "s' \<in> {..<max (length vecs) (length ext)}"
    and eq: "comb (vecs ! (s mod length vecs)) (ext ! (s mod length ext))
           = comb (vecs ! (s' mod length vecs)) (ext ! (s' mod length ext))"
  have m: "0 < length vecs" and n: "0 < length ext" using assms(3,4) by simp_all
  have "vecs ! (s mod length vecs) = vecs ! (s' mod length vecs)
      \<and> ext ! (s mod length ext) = ext ! (s' mod length ext)"
    using eq m n by (intro assms(5)) simp_all
  then have a: "s mod length vecs = s' mod length vecs" and b: "s mod length ext = s' mod length ext"
    using assms(1,2) m n by (simp_all add: nth_eq_iff_index_eq)
  show "s = s'"
  proof (cases "length ext \<le> length vecs")
    case True
    with s s' have "s < length vecs" "s' < length vecs" by simp_all
    with a show ?thesis by simp
  next
    case False
    with s s' have "s < length ext" "s' < length ext" by simp_all
    with b show ?thesis by simp
  qed
qed

lemma extendByCyclingWith_size:
  assumes "distinct vecs" "distinct ext" "vecs \<noteq> []" "ext \<noteq> []"
    and "\<And>v e v' e'. v \<in> set vecs \<Longrightarrow> v' \<in> set vecs \<Longrightarrow> e \<in> set ext \<Longrightarrow> e' \<in> set ext
            \<Longrightarrow> comb v e = comb v' e' \<Longrightarrow> v = v' \<and> e = e'"
  shows "\<exists>r. extendByCyclingWith comb vecs ext = Inr r
            \<and> length r = max (length vecs) (length ext)"
proof -
  let ?f = "\<lambda>s. comb (vecs ! (s mod length vecs)) (ext ! (s mod length ext))"
  from extendByCyclingWith_result [OF assms(3,4), of comb]
  obtain r where r: "extendByCyclingWith comb vecs ext = Inr r"
      "set r = ?f ` {..<max (length vecs) (length ext)}" "sorted_wrt (<) r" by blast
  have "distinct r" using r(3) by (simp add: strict_sorted_iff)
  then have "length r = card (set r)" by (simp add: distinct_card)
  also have "\<dots> = card {..<max (length vecs) (length ext)}"
    unfolding r(2) by (rule card_image) (rule cycling_inj [OF assms])
  finally show ?thesis using r(1) by simp
qed

lemma append_snoc_inj: "v @ [e] = v' @ [e'] \<Longrightarrow> v = v' \<and> e = e'"
  by simp

lemma set_map_emplace_fresh:
  "k \<notin> fst ` set m \<Longrightarrow> set (map_emplace k v m) = insert (k, v) (set m)"
  by (induction m) (auto split: if_splits)

lemma filter_fresh_key: "k \<notin> fst ` set m \<Longrightarrow> filter (\<lambda>kv. fst kv \<noteq> k) m = m"
  by (induction m) auto

lemma map_emplace_fresh_filter:
  "k \<notin> fst ` set m \<Longrightarrow> filter (\<lambda>kv. fst kv \<noteq> k) (map_emplace k v m) = m"
  by (induction m) (auto split: if_splits simp: filter_fresh_key)

lemma map_emplace_fresh_find:
  "k \<notin> fst ` set m \<Longrightarrow> (k, v) \<in> set (map_emplace k v m)"
  by (simp add: set_map_emplace_fresh)

lemma map_emplace_fresh_only:
  "k \<notin> fst ` set m \<Longrightarrow> (k, w) \<in> set (map_emplace k v m) \<Longrightarrow> w = v"
  by (force simp: set_map_emplace_fresh)

lemma map_emplace_fresh_inj:
  assumes "k \<notin> fst ` set m" "k \<notin> fst ` set m'"
    and "map_emplace k v m = map_emplace k v' m'"
  shows "m = m' \<and> v = v'"
proof
  from assms(3) have "filter (\<lambda>kv. fst kv \<noteq> k) (map_emplace k v m)
      = filter (\<lambda>kv. fst kv \<noteq> k) (map_emplace k v' m')" by simp
  then show "m = m'" using assms(1,2) by (simp add: map_emplace_fresh_filter)
  have "(k, v) \<in> set (map_emplace k v' m')"
    using map_emplace_fresh_find [OF assms(1), of v] assms(3) by simp
  then show "v = v'" by (rule map_emplace_fresh_only [OF assms(2)])
qed

lemma max_less_product: "2 \<le> (m::nat) \<Longrightarrow> 2 \<le> n \<Longrightarrow> max m n < m * n"
proof -
  assume m: "2 \<le> m" and n: "2 \<le> n"
  have "m * 2 \<le> m * n" using n by (rule mult_le_mono2)
  moreover have "2 * n \<le> m * n" using m by (rule mult_le_mono1)
  ultimately show ?thesis using m n by (simp add: max_def)
qed

text \<open>
  C5. For non-empty input sets, both overloads of \<open>extendByCycling\<close> return the set of
  the tuples emitted at the steps \<open>0, 1, \<dots>\<close> up to (not including) the larger of the
  two sizes: step \<open>s\<close> pairs the element at position \<open>s\<close> of each set, each position
  wrapping around on its own, and the loop stops once both have wrapped. The number of
  tuples returned is at least the larger of the two sizes and at most their sum, and it
  is below the size of the Cartesian product when both sets have two or more elements.
  For the overload on \<open>Params\<close> the parameter name is one that no input \<open>Params\<close> binds,
  as at its call in \<open>kPathCoverings\<close>.
\<close>

theorem extendByCycling_bounds:
  assumes "distinct vecs" "distinct ext" "vecs \<noteq> []" "ext \<noteq> []"
    and "distinct ps" "ps \<noteq> []" "\<forall>p\<in>set ps. param \<notin> fst ` set p"
  shows "(\<exists>r. extendByCycling vecs ext = Inr r
            \<and> set r = (\<lambda>s. vecs ! (s mod length vecs) @ [ext ! (s mod length ext)])
                         ` {..<max (length vecs) (length ext)}
            \<and> max (length vecs) (length ext) \<le> length r
            \<and> length r \<le> length vecs + length ext
            \<and> (2 \<le> length vecs \<and> 2 \<le> length ext \<longrightarrow> length r < length vecs * length ext))
       \<and> (\<exists>r. extendByCyclingParams ps param ext = Inr r
            \<and> set r = (\<lambda>s. map_emplace param (ext ! (s mod length ext)) (ps ! (s mod length ps)))
                         ` {..<max (length ps) (length ext)}
            \<and> max (length ps) (length ext) \<le> length r
            \<and> length r \<le> length ps + length ext
            \<and> (2 \<le> length ps \<and> 2 \<le> length ext \<longrightarrow> length r < length ps * length ext))"
proof
  let ?c = "\<lambda>tmp v. tmp @ [v :: val]"
  from extendByCyclingWith_result [OF assms(3,4), of ?c]
  obtain r where r: "extendByCyclingWith ?c vecs ext = Inr r"
    "set r = (\<lambda>s. vecs ! (s mod length vecs) @ [ext ! (s mod length ext)])
                ` {..<max (length vecs) (length ext)}" by blast
  obtain r' where r': "extendByCyclingWith ?c vecs ext = Inr r'"
      "length r' = max (length vecs) (length ext)"
    using extendByCyclingWith_size [OF assms(1,2,3,4), of ?c, OF append_snoc_inj] by blast
  have len: "length r = max (length vecs) (length ext)" using r(1) r' by simp
  have "2 \<le> length vecs \<and> 2 \<le> length ext \<longrightarrow> length r < length vecs * length ext"
    using max_less_product [of "length vecs" "length ext"] unfolding len by blast
  with r len show "\<exists>r. extendByCycling vecs ext = Inr r
            \<and> set r = (\<lambda>s. vecs ! (s mod length vecs) @ [ext ! (s mod length ext)])
                         ` {..<max (length vecs) (length ext)}
            \<and> max (length vecs) (length ext) \<le> length r
            \<and> length r \<le> length vecs + length ext
            \<and> (2 \<le> length vecs \<and> 2 \<le> length ext \<longrightarrow> length r < length vecs * length ext)"
    by (simp add: extendByCycling_def)
next
  let ?c = "\<lambda>tmp v. map_emplace param (v :: val) tmp"
  from extendByCyclingWith_result [OF assms(6,4), of ?c]
  obtain r where r: "extendByCyclingWith ?c ps ext = Inr r"
    "set r = (\<lambda>s. map_emplace param (ext ! (s mod length ext)) (ps ! (s mod length ps)))
                ` {..<max (length ps) (length ext)}" by blast
  have inj: "\<And>v e v' e'. v \<in> set ps \<Longrightarrow> v' \<in> set ps \<Longrightarrow> e \<in> set ext \<Longrightarrow> e' \<in> set ext
            \<Longrightarrow> ?c v e = ?c v' e' \<Longrightarrow> v = v' \<and> e = e'"
  proof -
    fix v e v' e'
    assume "v \<in> set ps" "v' \<in> set ps" and eq: "?c v e = ?c v' e'"
    then have "param \<notin> fst ` set v" "param \<notin> fst ` set v'" using assms(7) by blast+
    from map_emplace_fresh_inj [OF this eq] show "v = v' \<and> e = e'" .
  qed
  obtain r' where r': "extendByCyclingWith ?c ps ext = Inr r'"
      "length r' = max (length ps) (length ext)"
    using extendByCyclingWith_size [OF assms(5,2,6,4), of ?c, OF inj] by blast
  have len: "length r = max (length ps) (length ext)" using r(1) r' by simp
  have "2 \<le> length ps \<and> 2 \<le> length ext \<longrightarrow> length r < length ps * length ext"
    using max_less_product [of "length ps" "length ext"] unfolding len by blast
  with r len show "\<exists>r. extendByCyclingParams ps param ext = Inr r
            \<and> set r = (\<lambda>s. map_emplace param (ext ! (s mod length ext)) (ps ! (s mod length ps)))
                         ` {..<max (length ps) (length ext)}
            \<and> max (length ps) (length ext) \<le> length r
            \<and> length r \<le> length ps + length ext
            \<and> (2 \<le> length ps \<and> 2 \<le> length ext \<longrightarrow> length r < length ps * length ext)"
    by (simp add: extendByCyclingParams_def)
qed

theorem extendByCycling_bounds_witness:
  "distinct [[Sym ''a''], [Sym ''b'']] \<and> distinct [Int64 1, Int64 2, Int64 3]
   \<and> [[Sym ''a''], [Sym ''b'']] \<noteq> [] \<and> [Int64 1, Int64 2, Int64 3] \<noteq> []
   \<and> distinct [[(''x'', Int64 7)], [(''x'', Int64 8)]] \<and> [[(''x'', Int64 7)], [(''x'', Int64 8)]] \<noteq> []
   \<and> ''y'' \<notin> fst ` set [(''x'', Int64 7)] \<and> ''y'' \<notin> fst ` set [(''x'', Int64 8)]
   \<and> (\<exists>r. extendByCycling [[Sym ''a''], [Sym ''b'']] [Int64 1, Int64 2, Int64 3] = Inr r
          \<and> max (2::nat) 3 \<le> length r \<and> length r \<le> 2 + 3 \<and> length r < 2 * 3)
   \<and> (\<exists>r. extendByCyclingParams [[(''x'', Int64 7)], [(''x'', Int64 8)]] ''y'' [Int64 1, Int64 2, Int64 3] = Inr r
          \<and> max (2::nat) 3 \<le> length r \<and> length r \<le> 2 + 3 \<and> length r < 2 * 3)"
proof -
  let ?vecs = "[[Sym ''a''], [Sym ''b'']]" and ?ext = "[Int64 1 :: val, Int64 2, Int64 3]"
  let ?ps = "[[(''x'', Int64 7)], [(''x'', Int64 8)]]"
  have h1: "distinct ?vecs" by simp
  have h2: "distinct ?ext" by simp
  have h3: "?vecs \<noteq> []" by simp
  have h4: "?ext \<noteq> []" by simp
  have h5: "distinct ?ps" by simp
  have h6: "?ps \<noteq> []" by simp
  have h7: "\<forall>p\<in>set ?ps. ''y'' \<notin> fst ` set p" by simp
  have l: "length ?vecs = 2" "length ?ext = 3" "length ?ps = 2" by simp_all
  from extendByCycling_bounds [OF h1 h2 h3 h4 h5 h6 h7]
  obtain r r' where "extendByCycling ?vecs ?ext = Inr r"
      "max (length ?vecs) (length ?ext) \<le> length r" "length r \<le> length ?vecs + length ?ext"
      "length r < length ?vecs * length ?ext"
      "extendByCyclingParams ?ps ''y'' ?ext = Inr r'"
      "max (length ?ps) (length ?ext) \<le> length r'" "length r' \<le> length ?ps + length ?ext"
      "length r' < length ?ps * length ?ext"
    unfolding l by auto
  then have "(\<exists>r. extendByCycling ?vecs ?ext = Inr r
          \<and> max (2::nat) 3 \<le> length r \<and> length r \<le> 2 + 3 \<and> length r < 2 * 3)
     \<and> (\<exists>r. extendByCyclingParams ?ps ''y'' ?ext = Inr r
          \<and> max (2::nat) 3 \<le> length r \<and> length r \<le> 2 + 3 \<and> length r < 2 * 3)"
    unfolding l by blast
  moreover have "''y'' \<notin> fst ` set [(''x'', Int64 7)]" "''y'' \<notin> fst ` set [(''x'', Int64 8)]"
    by simp_all
  ultimately show ?thesis using h1 h2 h3 h4 h5 h6 by blast
qed

section \<open>Properties of pattern matching\<close>

lemma PairValue_match_zip:
  "PairValue_match h t x xs = list_all2 matchOne (take (Suc (length xs)) (h # t)) (take (Suc (length t)) (x # xs))"
proof (induction h t x xs rule: PairValue_match.induct)
  case (1 first second head)
  then show ?case by simp
next
  case (2 first second head t tail)
  then show ?case by (cases second) auto
qed

text \<open>
  C4 (amended). A match against two or more targets succeeds exactly when the value
  is a pair and every element of its chain matches the target at the same position,
  for as many positions as the chain and the target list both have: the head is
  matched against the first target; a null tail ends the match with success, whatever
  targets remain; a last remaining target is matched against the head of the
  remaining chain only.
\<close>

theorem Value_match_elementwise:
  "Value_match v (x # y # ys) =
     (case v of
        Pair h t \<Rightarrow>
          list_all2 matchOne (take (length (x # y # ys)) (h # t)) (take (length (h # t)) (x # y # ys))
      | _ \<Rightarrow> False)"
  by (cases v) (simp_all add: PairValue_match_zip)

text \<open>
  C4 as stated fails on the one-element list \<open>(1)\<close> matched against two integer
  slots: the match succeeds although the tail \<open>Nil\<close> does not match an integer slot.
\<close>

theorem Value_match_claim_counterexample:
  "\<not> (Value_match (Pair (Int64 1) []) [ToInt64, ToInt64]
        = claimed_match (Pair (Int64 1) []) [ToInt64, ToInt64])"
  by (simp add: claimed_match_def)

section \<open>Properties of the covering expansion\<close>

lemma extendByCycling_Inr:
  assumes "extendByCycling vecs ext = Inr r"
  shows "vecs \<noteq> [] \<and> ext \<noteq> [] \<and> r \<noteq> []
       \<and> set r = (\<lambda>s. vecs ! (s mod length vecs) @ [ext ! (s mod length ext)])
                    ` {..<max (length vecs) (length ext)}"
proof -
  from assms have ne: "vecs \<noteq> []" "ext \<noteq> []"
    by (auto simp: extendByCycling_def extendByCyclingWith_def split: if_splits)
  from extendByCyclingWith_result [OF ne, of "\<lambda>tmp v. tmp @ [v]"] assms
  have s: "set r = (\<lambda>s. vecs ! (s mod length vecs) @ [ext ! (s mod length ext)])
                    ` {..<max (length vecs) (length ext)}"
    by (auto simp: extendByCycling_def)
  have "0 < max (length vecs) (length ext)" using ne by (simp add: less_max_iff_disj)
  then have "{..<max (length vecs) (length ext)} \<noteq> {}" by blast
  with s have "set r \<noteq> {}" by simp
  with ne s show ?thesis by auto
qed

lemma pop_push [simp]: "pop (push ctx xs) (length xs) = ctx"
  by (simp add: pop_def push_def)

lemma atomsLoop_LitE:
  assumes "atomsLoop rec path ctx (Lit i v # as) paths prefixes covers = Inr res"
  obtains prefixes1 where "extendByCycling prefixes [v] = Inr prefixes1"
    and "atomsLoop rec path ctx as paths prefixes1 covers = Inr res"
  using assms by (auto split: sum.splits)

lemma atomsLoop_RefE:
  assumes "atomsLoop rec path ctx (Ref r # as) paths prefixes covers = Inr res"
  obtains subC subN paths1 prefixes1 where
    "rec (path @ [r]) (push ctx (mCtxExt r)) paths = Inr ((subC, subN), paths1)"
    and "subC = [] \<Longrightarrow> length subN = 1"
    and "extendByCycling prefixes (if subC \<noteq> [] then subC else subN) = Inr prefixes1"
    and "atomsLoop rec path ctx as paths1 prefixes1 (covers \<or> subC \<noteq> []) = Inr res"
proof -
  from assms obtain subC subN paths1 where
    r: "rec (path @ [r]) (push ctx (mCtxExt r)) paths = Inr ((subC, subN), paths1)"
    by (auto split: sum.splits)
  show ?thesis
  proof (cases "subC = []")
    case True
    with assms r have l: "length subN = 1" by (auto split: if_splits)
    with assms r True obtain prefixes1 where
      "extendByCycling prefixes subN = Inr prefixes1"
      "atomsLoop rec path ctx as paths1 prefixes1 covers = Inr res"
      by (auto split: sum.splits)
    with r True l that [of subC subN paths1 prefixes1] show ?thesis by simp
  next
    case False
    with assms r obtain prefixes1 where
      "extendByCycling prefixes subC = Inr prefixes1"
      "atomsLoop rec path ctx as paths1 prefixes1 True = Inr res"
      by (auto split: sum.splits)
    with r False that [of subC subN paths1 prefixes1] show ?thesis by simp
  qed
qed

lemma atomsLoop_nonempty:
  "atomsLoop rec path ctx atoms paths prefixes covers = Inr (prefixes', covers', paths')
     \<Longrightarrow> prefixes \<noteq> [] \<Longrightarrow> prefixes' \<noteq> []"
proof (induction atoms arbitrary: paths prefixes covers)
  case Nil
  then show ?case by simp
next
  case (Cons a as)
  show ?case
  proof (cases a)
    case (Lit i v)
    from Cons.prems(1) [unfolded Lit] obtain prefixes1 where
      e: "extendByCycling prefixes [v] = Inr prefixes1"
      and l: "atomsLoop rec path ctx as paths prefixes1 covers = Inr (prefixes', covers', paths')"
      by (rule atomsLoop_LitE)
    from extendByCycling_Inr [OF e] have "prefixes1 \<noteq> []" by simp
    from Cons.IH [OF l this] show ?thesis .
  next
    case (Ref r)
    from Cons.prems(1) [unfolded Ref] obtain subC subN paths1 prefixes1 where
      e: "extendByCycling prefixes (if subC \<noteq> [] then subC else subN) = Inr prefixes1"
      and l: "atomsLoop rec path ctx as paths1 prefixes1 (covers \<or> subC \<noteq> [])
                = Inr (prefixes', covers', paths')"
      by (rule atomsLoop_RefE)
    from extendByCycling_Inr [OF e] have "prefixes1 \<noteq> []" by simp
    from Cons.IH [OF l this] show ?thesis .
  qed
qed

lemma set_emplaceAll: "set (emplaceAll ps s) = ValueOfVector ` set ps \<union> set s"
  by (induction ps arbitrary: s) auto

lemma sorted_emplaceAll: "sorted_wrt (<) s \<Longrightarrow> sorted_wrt (<) (emplaceAll ps s)"
  by (induction ps arbitrary: s) (auto intro: sorted_set_emplace)

lemma emplaceAll_nonempty: "ps \<noteq> [] \<or> s \<noteq> [] \<Longrightarrow> emplaceAll ps s \<noteq> []"
  using set_emplaceAll [of ps s] by (metis Un_empty image_is_empty set_empty)

lemma prodsLoop_sets:
  "prodsLoop rec path ctx kpath rl prods paths cov non = Inr (cov', non', paths')
     \<Longrightarrow> sorted_wrt (<) cov \<Longrightarrow> sorted_wrt (<) non
     \<Longrightarrow> sorted_wrt (<) cov' \<and> sorted_wrt (<) non'
         \<and> (prods \<noteq> [] \<or> cov \<noteq> [] \<or> non \<noteq> [] \<longrightarrow> cov' \<noteq> [] \<or> non' \<noteq> [])"
proof (induction prods arbitrary: paths cov non)
  case Nil
  then show ?case by simp
next
  case (Cons prd prods)
  obtain paths1 covers1 where cl: "coverLoop kpath (mAtoms prd) paths = (paths1, covers1)"
    by (cases "coverLoop kpath (mAtoms prd) paths")
  from Cons.prems(1) cl obtain prefixes pc paths2 where
    al: "atomsLoop rec path ctx (mAtoms prd) paths1 [[Sym rl]] covers1 = Inr (prefixes, pc, paths2)"
    by (auto split: sum.splits)
  have ne: "prefixes \<noteq> []" using atomsLoop_nonempty [OF al] by simp
  show ?case
  proof (cases pc)
    case True
    with Cons.prems(1) cl al have
      "prodsLoop rec path ctx kpath rl prods paths2 (emplaceAll prefixes cov) non = Inr (cov', non', paths')"
      by simp
    from Cons.IH [OF this sorted_emplaceAll [OF Cons.prems(2)] Cons.prems(3)]
         emplaceAll_nonempty [of prefixes cov] ne
    show ?thesis by simp
  next
    case False
    with Cons.prems(1) cl al have
      "prodsLoop rec path ctx kpath rl prods paths2 cov (emplaceAll prefixes non) = Inr (cov', non', paths')"
      by simp
    from Cons.IH [OF this Cons.prems(2) sorted_emplaceAll [OF Cons.prems(3)]]
         emplaceAll_nonempty [of prefixes non] ne
    show ?thesis by simp
  qed
qed

lemma strict_sorted_hd_Min:
  "sorted_wrt (<) (xs :: 'a::linorder list) \<Longrightarrow> xs \<noteq> [] \<Longrightarrow> hd xs = Min (set xs)"
proof -
  assume s: "sorted_wrt (<) xs" and ne: "xs \<noteq> []"
  then obtain x xs' where xs: "xs = x # xs'" by (cases xs) auto
  with s have "\<forall>y\<in>set xs'. x < y" by simp
  then have "\<forall>y\<in>set xs. x \<le> y" using xs by auto
  then have "Min (set xs) = x" using xs by (intro Min_eqI) auto
  with xs show ?thesis by simp
qed

text \<open>
  C6. Once the loop over the active productions of the rule at the end of the path
  has ended normally with the sets \<open>covering\<close> and \<open>nonCovering\<close>, the
  function returns (its final assertion holds): the covering set is returned as it is;
  if it is non-empty the returned non-covering set is empty; otherwise the accumulated
  non-covering set is non-empty and the returned one holds exactly its smallest
  element in the order of values. In every case one of the two returned sets is
  non-empty.
\<close>

theorem kPathCoveringOrMinimalExpansion_post:
  assumes "path \<noteq> []" and "0 < k"
    and "getActiveProductions G (mRuleName (last path)) (Suc d) ctx = Inr prods"
    and "prodsLoop (\<lambda>subPath ctx' paths'. kPathCoveringOrMinimalExpansion G subPath d ctx' k paths')
           path ctx (tentativeKPath path k) (mRuleName (last path)) prods paths [] []
         = Inr (covering, nonCovering, paths')"
  shows "\<exists>nonCovering'.
           kPathCoveringOrMinimalExpansion G path (Suc d) ctx k paths
             = Inr ((covering, nonCovering'), paths')
         \<and> (if covering \<noteq> [] then nonCovering' = []
            else nonCovering \<noteq> [] \<and> nonCovering' = [Min (set nonCovering)])
         \<and> (covering \<noteq> [] \<or> nonCovering' \<noteq> [])"
proof -
  have prods: "prods \<noteq> []"
    using assms(3) by (auto simp: getActiveProductions_def split: sum.splits prod.splits if_splits)
  from prodsLoop_sets [OF assms(4)] prods
  have so: "sorted_wrt (<) nonCovering" and ne: "covering \<noteq> [] \<or> nonCovering \<noteq> []"
    by simp_all
  show ?thesis
  proof (cases "covering = []")
    case False
    then show ?thesis using assms by (simp add: keepCoveringOrSmallest_def)
  next
    case True
    with ne have nn: "nonCovering \<noteq> []" by simp
    then obtain v vs where n: "nonCovering = v # vs" by (cases nonCovering) auto
    have "v = Min (set nonCovering)" using strict_sorted_hd_Min [OF so nn] n by simp
    then show ?thesis using assms True n by (simp add: keepCoveringOrSmallest_def)
  qed
qed


lemma extendByCycling_single:
  "extendByCycling [p] [v] = Inr [p @ [v]]"
  by (simp add: extendByCycling_def extendByCyclingWith_def cycleLoop.simps)

theorem kPathCoveringOrMinimalExpansion_post_witness:
  "[MkRef 2 ''A'' []] \<noteq> [] \<and> 0 < (2::nat)
   \<and> getActiveProductions gLits (mRuleName (last [MkRef 2 ''A'' []])) (Suc 0) (Context [])
        = Inr [Production [Lit 0 (Int64 2)] [], Production [Lit 1 (Int64 1)] []]
   \<and> prodsLoop (\<lambda>subPath ctx' paths'. kPathCoveringOrMinimalExpansion gLits subPath 0 ctx' 2 paths')
        [MkRef 2 ''A'' []] (Context []) (tentativeKPath [MkRef 2 ''A'' []] 2)
        (mRuleName (last [MkRef 2 ''A'' []]))
        [Production [Lit 0 (Int64 2)] [], Production [Lit 1 (Int64 1)] []] [] [] []
        = Inr ([], [Pair (Sym ''A'') [Int64 1], Pair (Sym ''A'') [Int64 2]], [])
   \<and> kPathCoveringOrMinimalExpansion gLits [MkRef 2 ''A'' []] (Suc 0) (Context []) 2 []
        = Inr (([], [Pair (Sym ''A'') [Int64 1]]), [])"
proof -
  let ?ps = "[Production [Lit 0 (Int64 2)] [], Production [Lit 1 (Int64 1)] []]"
  have h1: "[MkRef 2 ''A'' []] \<noteq> []" by simp
  have h2: "0 < (2::nat)" by simp
  have h3: "getActiveProductions gLits (mRuleName (last [MkRef 2 ''A'' []])) (Suc 0) (Context [])
        = Inr ?ps"
    by (simp add: gLits_def getActiveProductions_def getProductions_def Production_def)
  have h4: "prodsLoop (\<lambda>subPath ctx' paths'. kPathCoveringOrMinimalExpansion gLits subPath 0 ctx' 2 paths')
        [MkRef 2 ''A'' []] (Context []) (tentativeKPath [MkRef 2 ''A'' []] 2)
        (mRuleName (last [MkRef 2 ''A'' []])) ?ps [] [] []
        = Inr ([], [Pair (Sym ''A'') [Int64 1], Pair (Sym ''A'') [Int64 2]], [])"
    by (simp add: Production_def extendByCycling_single less_val_def word_sless_alt)
  have m: "Min (set [Pair (Sym ''A'') [Int64 1], Pair (Sym ''A'') [Int64 2]]) = Pair (Sym ''A'') [Int64 1]"
    by (simp add: less_eq_val_def less_val_def word_sless_alt)
  from kPathCoveringOrMinimalExpansion_post [OF h1 h2 h3 h4]
  have "kPathCoveringOrMinimalExpansion gLits [MkRef 2 ''A'' []] (Suc 0) (Context []) 2 []
        = Inr (([], [Pair (Sym ''A'') [Int64 1]]), [])"
    unfolding m by auto
  with h1 h2 h3 h4 show ?thesis by blast
qed

section \<open>Properties of random generation\<close>

lemma getActiveProductions_terminal:
  assumes "hasTerminalProduction G rl"
  shows "\<exists>r prods. mRules G rl = Some r \<and> getActiveProductions G rl d ctx = Inr prods \<and> prods \<noteq> []
            \<and> set prods \<subseteq> set (mProductions r) \<and> (d = 1 \<longrightarrow> (\<forall>p\<in>set prods. \<not> mHasRefs p))"
proof -
  from assms obtain r p where r: "mRules G rl = Some r" and p: "p \<in> set (mProductions r)"
    "\<not> mHasRefs p" "mCtxReq p = []"
    by (auto simp: hasTerminalProduction_def list_ex_iff split: option.splits)
  let ?act = "filter (\<lambda>p. \<not> (d = 1 \<and> mHasRefs p) \<and> hasAll ctx (mCtxReq p)) (mProductions r)"
  have gp: "getProductions G rl = Inr (mProductions r)"
    using r p(1) by (auto simp: getProductions_def)
  have "p \<in> set ?act" using p by simp
  then have ne: "?act \<noteq> []" by (metis empty_iff list.set(1))
  have "getActiveProductions G rl d ctx = Inr ?act"
    using gp ne by (simp add: getActiveProductions_def activeLoop_eq)
  moreover have "set ?act \<subseteq> set (mProductions r)" by auto
  moreover have "d = 1 \<longrightarrow> (\<forall>p\<in>set ?act. \<not> mHasRefs p)" by auto
  ultimately show ?thesis using r ne by blast
qed

lemma pickUniform_member:
  assumes "\<forall>g n. fst (draw g n) \<le> n" "elts \<noteq> []"
  shows "\<exists>x gen'. pickUniform draw gen elts = Inr (x, gen') \<and> x \<in> set elts"
proof -
  obtain n gen' where d: "draw gen (length elts - 1) = (n, gen')"
    by (cases "draw gen (length elts - 1)")
  from assms(1) have "fst (draw gen (length elts - 1)) \<le> length elts - 1" by blast
  with d assms(2) have "n < length elts" by (cases elts) auto
  with d assms(2) show ?thesis by (auto simp: pickUniform_def)
qed

lemma randomAtoms_ok:
  assumes "\<forall>x. Ref x \<in> set atoms \<longrightarrow>
             (\<forall>g c. \<exists>t g'. rec (mRuleName x) g c = Inr (Pair (Sym (mRuleName x)) t, g'))"
  shows "\<exists>vs gen'. randomAtoms rec gen ctx atoms vals = Inr (vals @ vs, gen')"
  using assms
proof (induction atoms arbitrary: gen ctx vals)
  case Nil
  then show ?case by simp
next
  case (Cons a as)
  have rest: "\<forall>x. Ref x \<in> set as \<longrightarrow>
             (\<forall>g c. \<exists>t g'. rec (mRuleName x) g c = Inr (Pair (Sym (mRuleName x)) t, g'))"
    using Cons.prems by simp
  show ?case
  proof (cases a)
    case (Lit i v)
    from Cons.IH [OF rest, of gen ctx "vals @ [v]"] show ?thesis using Lit by auto
  next
    case (Ref r)
    from Cons.prems Ref obtain t g1 where
      r: "rec (mRuleName r) gen (push ctx (mCtxExt r)) = Inr (Pair (Sym (mRuleName r)) t, g1)"
      by (metis list.set_intros(1))
    have m: "Value_match (Pair (Sym (mRuleName r)) t) [EqSym (mRuleName r), ToValue]"
      by (cases t) simp_all
    from Cons.IH [OF rest, of g1 ctx "vals @ [Pair (Sym (mRuleName r)) t]"]
    show ?thesis using Ref r m by auto
  qed
qed

text \<open>
  A sufficient condition that is easy to check on a grammar: when the rule and every
  rule named by a \<open>Ref\<close> have a production with no \<open>Ref\<close> and no required context
  name, a value is returned at every depth limit from 1 on. This is what the message of
  the error thrown at depth limit 1 asks of the grammar.
\<close>

lemma randomValueFromRule_terminal_productions:
  assumes "\<forall>g n. fst (draw g n) \<le> n"
    and "\<forall>rl r p. mRules G rl = Some r \<longrightarrow> p \<in> set (mProductions r) \<longrightarrow>
           mHasRefs p = (\<exists>a\<in>set (mAtoms p). isRef a)
           \<and> (\<forall>x. Ref x \<in> set (mAtoms p) \<longrightarrow> hasTerminalProduction G (mRuleName x))"
    and "hasTerminalProduction G R"
    and "1 \<le> d"
  shows "\<exists>t gen'. randomValueFromRule draw G R gen d ctx = Inr (Pair (Sym R) t, gen')"
  using assms(3,4)
proof (induction d arbitrary: R gen ctx)
  case 0
  then show ?case by simp
next
  case (Suc d)
  from getActiveProductions_terminal [OF Suc.prems(1), of "Suc d" ctx]
  obtain r prods where r: "mRules G R = Some r"
    and act: "getActiveProductions G R (Suc d) ctx = Inr prods" "prods \<noteq> []"
    and sub: "set prods \<subseteq> set (mProductions r)"
    and one: "Suc d = 1 \<longrightarrow> (\<forall>p\<in>set prods. \<not> mHasRefs p)" by blast
  from pickUniform_member [OF assms(1) act(2), of gen]
  obtain prd gen1 where pick: "pickUniform draw gen prods = Inr (prd, gen1)" and mem: "prd \<in> set prods"
    by blast
  from mem sub have pm: "prd \<in> set (mProductions r)" by blast
  from assms(2) r pm have flag: "mHasRefs prd = (\<exists>a\<in>set (mAtoms prd). isRef a)"
    and refs: "\<forall>x. Ref x \<in> set (mAtoms prd) \<longrightarrow> hasTerminalProduction G (mRuleName x)"
    by blast+
  let ?rec = "\<lambda>rl' gen' ctx'. randomValueFromRule draw G rl' gen' d ctx'"
  have ok: "\<forall>x. Ref x \<in> set (mAtoms prd) \<longrightarrow>
             (\<forall>g c. \<exists>t g'. ?rec (mRuleName x) g c = Inr (Pair (Sym (mRuleName x)) t, g'))"
  proof (cases d)
    case 0
    with one mem have "\<not> mHasRefs prd" by simp
    with flag have "\<forall>a\<in>set (mAtoms prd). \<not> isRef a" by simp
    then show ?thesis by fastforce
  next
    case (Suc d')
    then have "1 \<le> d" by simp
    with refs Suc.IH show ?thesis by blast
  qed
  from randomAtoms_ok [OF ok, of gen1 ctx "[Sym R]"]
  obtain vs gen2 where "randomAtoms ?rec gen1 ctx (mAtoms prd) [Sym R] = Inr ([Sym R] @ vs, gen2)"
    by blast
  with act pick show ?case by simp
qed

lemma randomValueFromRule_gExpr:
  "\<exists>t gen'. randomValueFromRule drawHighest gExpr ''expr'' (0::nat) 3 (Context [])
      = Inr (Pair (Sym ''expr'') t, gen')"
proof -
  have h1: "\<forall>g n. fst (drawHighest g n) \<le> n" by (simp add: drawHighest_def)
  have te: "hasTerminalProduction gExpr ''expr''" and ta: "hasTerminalProduction gExpr ''add''"
    by (simp_all add: hasTerminalProduction_def gExpr_def Production_def)
  have h2: "\<forall>rl r p. mRules gExpr rl = Some r \<longrightarrow> p \<in> set (mProductions r) \<longrightarrow>
           mHasRefs p = (\<exists>a\<in>set (mAtoms p). isRef a)
           \<and> (\<forall>x. Ref x \<in> set (mAtoms p) \<longrightarrow> hasTerminalProduction gExpr (mRuleName x))"
  proof (intro allI impI)
    fix rl r p assume a: "mRules gExpr rl = Some r" "p \<in> set (mProductions r)"
    then have "p \<in> {Production [Lit 0 (Int64 0)] [],
                     Production [Ref (MkRef 1 ''expr'' []), Ref (MkRef 2 ''expr'' [])] [],
                     Production [Lit 3 (Int64 1)] [], Production [Ref (MkRef 4 ''add'' [])] []}"
      by (auto simp: gExpr_def split: if_splits)
    then show "mHasRefs p = (\<exists>a\<in>set (mAtoms p). isRef a)
           \<and> (\<forall>x. Ref x \<in> set (mAtoms p) \<longrightarrow> hasTerminalProduction gExpr (mRuleName x))"
      using te ta by (auto simp: Production_def)
  qed
  have h4: "1 \<le> (3::nat)" by simp
  from randomValueFromRule_terminal_productions [OF h1 h2 te h4] show ?thesis .
qed

text \<open>
  \<open>getActiveProductions\<close> never returns an empty vector: it throws instead. The branch
  of \<open>randomValueFromRule\<close> for an empty vector, which would return the list \<open>(rule)\<close>
  alone as the comment above the function says, is therefore never taken.
\<close>

lemma getActiveProductions_nonempty:
  "getActiveProductions G rl d ctx = Inr prods \<Longrightarrow> prods \<noteq> []"
  by (auto simp: getActiveProductions_def split: sum.splits prod.splits if_splits)

lemma drawList_bounds: "fst (drawList g n) \<le> n"
  by (cases g) simp_all

lemma randomAtoms_returns:
  assumes "\<forall>x. Ref x \<in> set atoms \<longrightarrow>
             (\<forall>g. \<exists>t g'. rec (mRuleName x) g (push ctx (mCtxExt x)) = Inr (Pair (Sym (mRuleName x)) t, g'))"
  shows "\<exists>vs gen'. randomAtoms rec gen ctx atoms vals = Inr (vals @ vs, gen')"
  using assms
proof (induction atoms arbitrary: gen vals)
  case Nil
  then show ?case by simp
next
  case (Cons a as)
  have rest: "\<forall>x. Ref x \<in> set as \<longrightarrow>
             (\<forall>g. \<exists>t g'. rec (mRuleName x) g (push ctx (mCtxExt x)) = Inr (Pair (Sym (mRuleName x)) t, g'))"
    using Cons.prems by simp
  show ?case
  proof (cases a)
    case (Lit i v)
    from Cons.IH [OF rest, of gen "vals @ [v]"] show ?thesis using Lit by auto
  next
    case (Ref r)
    from Cons.prems Ref obtain t g1 where
      r: "rec (mRuleName r) gen (push ctx (mCtxExt r)) = Inr (Pair (Sym (mRuleName r)) t, g1)"
      by (metis list.set_intros(1))
    have m: "Value_match (Pair (Sym (mRuleName r)) t) [EqSym (mRuleName r), ToValue]"
      by (cases t) simp_all
    from Cons.IH [OF rest, of g1 "vals @ [Pair (Sym (mRuleName r)) t]"]
    show ?thesis using Ref r m by auto
  qed
qed

lemma randomValueFromRule_active:
  assumes "\<forall>g n. fst (draw g n) \<le> n"
  shows "activeThroughout G d ctx R
           \<Longrightarrow> \<exists>t gen'. randomValueFromRule draw G R gen d ctx = Inr (Pair (Sym R) t, gen')"
proof (induction d arbitrary: R gen ctx)
  case 0
  then show ?case by simp
next
  case (Suc d)
  from Suc.prems obtain prods where act: "getActiveProductions G R (Suc d) ctx = Inr prods"
    and all: "\<forall>p\<in>set prods. \<forall>a\<in>set (mAtoms p). \<forall>r'. a = Ref r' \<longrightarrow>
                activeThroughout G d (push ctx (mCtxExt r')) (mRuleName r')"
    by (auto simp: list_all_iff split: sum.splits atom.splits)
  from getActiveProductions_nonempty [OF act] have ne: "prods \<noteq> []" .
  from pickUniform_member [OF assms ne, of gen]
  obtain prd gen1 where pick: "pickUniform draw gen prods = Inr (prd, gen1)" and mem: "prd \<in> set prods"
    by blast
  let ?rec = "\<lambda>rl' gen' ctx'. randomValueFromRule draw G rl' gen' d ctx'"
  have ok: "\<forall>x. Ref x \<in> set (mAtoms prd) \<longrightarrow>
             (\<forall>g. \<exists>t g'. ?rec (mRuleName x) g (push ctx (mCtxExt x)) = Inr (Pair (Sym (mRuleName x)) t, g'))"
    using all mem Suc.IH by blast
  from randomAtoms_returns [OF ok, of gen1 "[Sym R]"]
  obtain vs gen2 where "randomAtoms ?rec gen1 ctx (mAtoms prd) [Sym R] = Inr ([Sym R] @ vs, gen2)"
    by blast
  with act pick ne show ?case by simp
qed

lemma pickUniform_drawList:
  "n < length elts \<Longrightarrow> pickUniform drawList (n # ns) elts = Inr (elts ! n, ns)"
  by (cases elts) (auto simp: pickUniform_def min_def)

lemma randomAtoms_some:
  assumes "\<forall>x. Ref x \<in> set atoms \<longrightarrow>
             (\<exists>ns t. \<forall>more. rec (mRuleName x) (ns @ more) (push ctx (mCtxExt x))
                        = Inr (Pair (Sym (mRuleName x)) t, more))"
  shows "\<exists>ns vs. \<forall>more. randomAtoms rec (ns @ more) ctx atoms vals = Inr (vals @ vs, more)"
  using assms
proof (induction atoms arbitrary: vals)
  case Nil
  have "\<forall>more. randomAtoms rec ([] @ more) ctx [] vals = Inr (vals @ [], more)" by simp
  then show ?case by blast
next
  case (Cons a as)
  have rest: "\<forall>x. Ref x \<in> set as \<longrightarrow>
             (\<exists>ns t. \<forall>more. rec (mRuleName x) (ns @ more) (push ctx (mCtxExt x))
                        = Inr (Pair (Sym (mRuleName x)) t, more))"
    using Cons.prems by simp
  show ?case
  proof (cases a)
    case (Lit i v)
    from Cons.IH [OF rest, of "vals @ [v]"] obtain ns vs where
      "\<forall>more. randomAtoms rec (ns @ more) ctx as (vals @ [v]) = Inr ((vals @ [v]) @ vs, more)"
      by blast
    then have "\<forall>more. randomAtoms rec (ns @ more) ctx (a # as) vals = Inr (vals @ (v # vs), more)"
      using Lit by simp
    then show ?thesis by blast
  next
    case (Ref r)
    from Cons.prems Ref obtain ns1 t where
      r: "\<forall>more. rec (mRuleName r) (ns1 @ more) (push ctx (mCtxExt r))
            = Inr (Pair (Sym (mRuleName r)) t, more)"
      by (metis list.set_intros(1))
    have m: "Value_match (Pair (Sym (mRuleName r)) t) [EqSym (mRuleName r), ToValue]"
      by (cases t) simp_all
    from Cons.IH [OF rest, of "vals @ [Pair (Sym (mRuleName r)) t]"] obtain ns2 vs where
      as: "\<forall>more. randomAtoms rec (ns2 @ more) ctx as (vals @ [Pair (Sym (mRuleName r)) t])
             = Inr ((vals @ [Pair (Sym (mRuleName r)) t]) @ vs, more)"
      by blast
    have "\<forall>more. randomAtoms rec ((ns1 @ ns2) @ more) ctx (a # as) vals
            = Inr (vals @ (Pair (Sym (mRuleName r)) t # vs), more)"
      using Ref r m as by simp
    then show ?thesis by blast
  qed
qed

lemma randomValueFromRule_derivable:
  assumes flags: "\<forall>rl r p. mRules G rl = Some r \<longrightarrow> p \<in> set (mProductions r) \<longrightarrow>
           mHasRefs p = (\<exists>a\<in>set (mAtoms p). isRef a)"
  shows "derivableWithin G d ctx R
           \<Longrightarrow> \<exists>ns t. \<forall>more. randomValueFromRule drawList G R (ns @ more) d ctx
                  = Inr (Pair (Sym R) t, more)"
proof (induction d arbitrary: R ctx)
  case 0
  then show ?case by simp
next
  case (Suc d)
  from Suc.prems obtain r p where r: "mRules G R = Some r" and p: "p \<in> set (mProductions r)"
    and req: "hasAll ctx (mCtxReq p)"
    and sub: "\<forall>a\<in>set (mAtoms p). \<forall>r'. a = Ref r' \<longrightarrow>
                derivableWithin G d (push ctx (mCtxExt r')) (mRuleName r')"
    by (auto simp: list_ex_iff list_all_iff split: option.splits atom.splits)
  let ?act = "filter (\<lambda>p. \<not> (Suc d = 1 \<and> mHasRefs p) \<and> hasAll ctx (mCtxReq p)) (mProductions r)"
  have norefs: "Suc d = 1 \<Longrightarrow> \<not> mHasRefs p"
  proof -
    assume "Suc d = 1"
    then have d: "d = 0" by simp
    have "\<forall>a\<in>set (mAtoms p). \<not> isRef a"
    proof
      fix a assume a: "a \<in> set (mAtoms p)"
      show "\<not> isRef a"
      proof (cases a)
        case (Lit i v)
        then show ?thesis by simp
      next
        case (Ref r')
        with sub a d show ?thesis by auto
      qed
    qed
    with flags r p show ?thesis by blast
  qed
  have gp: "getProductions G R = Inr (mProductions r)"
    using r p by (auto simp: getProductions_def)
  have pin: "p \<in> set ?act" using p req norefs by auto
  then have ne: "?act \<noteq> []" by (metis empty_iff list.set(1))
  have act: "getActiveProductions G R (Suc d) ctx = Inr ?act"
    using gp ne by (simp add: getActiveProductions_def activeLoop_eq)
  from pin obtain n where n: "n < length ?act" "?act ! n = p"
    by (meson in_set_conv_nth)
  let ?rec = "\<lambda>rl' gen' ctx'. randomValueFromRule drawList G rl' gen' d ctx'"
  have ok: "\<forall>x. Ref x \<in> set (mAtoms p) \<longrightarrow>
             (\<exists>ns t. \<forall>more. ?rec (mRuleName x) (ns @ more) (push ctx (mCtxExt x))
                        = Inr (Pair (Sym (mRuleName x)) t, more))"
    using sub Suc.IH by blast
  from randomAtoms_some [OF ok, of "[Sym R]"] obtain ns vs where
    atoms: "\<forall>more. randomAtoms ?rec (ns @ more) ctx (mAtoms p) [Sym R] = Inr ([Sym R] @ vs, more)"
    by blast
  have "\<forall>more. randomValueFromRule drawList G R ((n # ns) @ more) (Suc d) ctx
          = Inr (Pair (Sym R) vs, more)"
    using act ne pickUniform_drawList [OF n(1)] n(2) atoms by simp
  then show ?case by blast
qed

lemma randomValueFromRule_active_drawList:
  "activeThroughout G d ctx R
     \<Longrightarrow> \<exists>ns t. \<forall>more. randomValueFromRule drawList G R (ns @ more) d ctx
            = Inr (Pair (Sym R) t, more)"
proof (induction d arbitrary: R ctx)
  case 0
  then show ?case by simp
next
  case (Suc d)
  from Suc.prems obtain prods where act: "getActiveProductions G R (Suc d) ctx = Inr prods"
    and all: "\<forall>p\<in>set prods. \<forall>a\<in>set (mAtoms p). \<forall>r'. a = Ref r' \<longrightarrow>
                activeThroughout G d (push ctx (mCtxExt r')) (mRuleName r')"
    by (auto simp: list_all_iff split: sum.splits atom.splits)
  from getActiveProductions_nonempty [OF act] have ne: "prods \<noteq> []" .
  then have n: "0 < length prods" and mem: "prods ! 0 \<in> set prods" by simp_all
  let ?rec = "\<lambda>rl' gen' ctx'. randomValueFromRule drawList G rl' gen' d ctx'"
  have ok: "\<forall>x. Ref x \<in> set (mAtoms (prods ! 0)) \<longrightarrow>
             (\<exists>ns t. \<forall>more. ?rec (mRuleName x) (ns @ more) (push ctx (mCtxExt x))
                        = Inr (Pair (Sym (mRuleName x)) t, more))"
    using all mem Suc.IH by blast
  from randomAtoms_some [OF ok, of "[Sym R]"] obtain ns vs where
    atoms: "\<forall>more. randomAtoms ?rec (ns @ more) ctx (mAtoms (prods ! 0)) [Sym R]
              = Inr ([Sym R] @ vs, more)"
    by blast
  have "\<forall>more. randomValueFromRule drawList G R ((0 # ns) @ more) (Suc d) ctx
          = Inr (Pair (Sym R) vs, more)"
    using act ne pickUniform_drawList [OF n] atoms by simp
  then show ?case by blast
qed

lemma randomAtoms_fails:
  assumes "\<forall>y. Ref y \<in> set atoms \<longrightarrow>
             (\<exists>ns t. \<forall>more. rec (mRuleName y) (ns @ more) (push ctx (mCtxExt y))
                        = Inr (Pair (Sym (mRuleName y)) t, more))
           \<or> (\<exists>ns e. \<forall>more. rec (mRuleName y) (ns @ more) (push ctx (mCtxExt y)) = Inl e)"
    and "Ref x \<in> set atoms"
    and "\<exists>ns e. \<forall>more. rec (mRuleName x) (ns @ more) (push ctx (mCtxExt x)) = Inl e"
  shows "\<exists>ns e. \<forall>more. randomAtoms rec (ns @ more) ctx atoms vals = Inl e"
  using assms(1,2)
proof (induction atoms arbitrary: vals)
  case Nil
  then show ?case by simp
next
  case (Cons a as)
  have rest: "\<forall>y. Ref y \<in> set as \<longrightarrow>
             (\<exists>ns t. \<forall>more. rec (mRuleName y) (ns @ more) (push ctx (mCtxExt y))
                        = Inr (Pair (Sym (mRuleName y)) t, more))
           \<or> (\<exists>ns e. \<forall>more. rec (mRuleName y) (ns @ more) (push ctx (mCtxExt y)) = Inl e)"
    using Cons.prems(1) by simp
  show ?case
  proof (cases a)
    case (Lit i v)
    with Cons.prems(2) have "Ref x \<in> set as" by simp
    from Cons.IH [OF rest this, of "vals @ [v]"] obtain ns e where
      "\<forall>more. randomAtoms rec (ns @ more) ctx as (vals @ [v]) = Inl e" by blast
    then have "\<forall>more. randomAtoms rec (ns @ more) ctx (a # as) vals = Inl e"
      using Lit by simp
    then show ?thesis by blast
  next
    case (Ref y)
    show ?thesis
    proof (cases "\<exists>ns e. \<forall>more. rec (mRuleName y) (ns @ more) (push ctx (mCtxExt y)) = Inl e")
      case True
      then obtain ns e where "\<forall>more. rec (mRuleName y) (ns @ more) (push ctx (mCtxExt y)) = Inl e"
        by blast
      then have "\<forall>more. randomAtoms rec (ns @ more) ctx (a # as) vals = Inl e"
        using Ref by simp
      then show ?thesis by blast
    next
      case False
      with assms(3) have "x \<noteq> y" by blast
      with Cons.prems(2) Ref have xin: "Ref x \<in> set as" by simp
      from False Cons.prems(1) Ref obtain ns1 t where
        r: "\<forall>more. rec (mRuleName y) (ns1 @ more) (push ctx (mCtxExt y))
              = Inr (Pair (Sym (mRuleName y)) t, more)"
        by (metis list.set_intros(1))
      have m: "Value_match (Pair (Sym (mRuleName y)) t) [EqSym (mRuleName y), ToValue]"
        by (cases t) simp_all
      from Cons.IH [OF rest xin, of "vals @ [Pair (Sym (mRuleName y)) t]"] obtain ns2 e where
        as: "\<forall>more. randomAtoms rec (ns2 @ more) ctx as (vals @ [Pair (Sym (mRuleName y)) t]) = Inl e"
        by blast
      have "\<forall>more. randomAtoms rec ((ns1 @ ns2) @ more) ctx (a # as) vals = Inl e"
        using Ref r m as by simp
      then show ?thesis by blast
    qed
  qed
qed

lemma randomValueFromRule_inactive:
  "\<not> activeThroughout G d ctx R
     \<Longrightarrow> \<exists>ns e. \<forall>more. randomValueFromRule drawList G R (ns @ more) d ctx = Inl e"
proof (induction d arbitrary: R ctx)
  case 0
  have "\<forall>more. randomValueFromRule drawList G R ([] @ more) 0 ctx = Inl DepthLimitZero" by simp
  then show ?case by blast
next
  case (Suc d)
  show ?case
  proof (cases "getActiveProductions G R (Suc d) ctx")
    case (Inl e)
    then have "\<forall>more. randomValueFromRule drawList G R ([] @ more) (Suc d) ctx = Inl e" by simp
    then show ?thesis by blast
  next
    case (Inr prods)
    with Suc.prems obtain p a where p: "p \<in> set prods" and a: "a \<in> set (mAtoms p)"
      and nota: "\<not> (case a of Lit i v \<Rightarrow> True
                     | Ref r' \<Rightarrow> activeThroughout G d (push ctx (mCtxExt r')) (mRuleName r'))"
      by (auto simp: list_all_iff)
    from nota obtain x where ax: "a = Ref x"
      and bad: "\<not> activeThroughout G d (push ctx (mCtxExt x)) (mRuleName x)"
      by (cases a) auto
    from a ax have x: "Ref x \<in> set (mAtoms p)" by simp
    from p obtain n where n: "n < length prods" "prods ! n = p"
      by (meson in_set_conv_nth)
    from p have ne: "prods \<noteq> []" by auto
    let ?rec = "\<lambda>rl' gen' ctx'. randomValueFromRule drawList G rl' gen' d ctx'"
    have each: "\<forall>y. Ref y \<in> set (mAtoms p) \<longrightarrow>
             (\<exists>ns t. \<forall>more. ?rec (mRuleName y) (ns @ more) (push ctx (mCtxExt y))
                        = Inr (Pair (Sym (mRuleName y)) t, more))
           \<or> (\<exists>ns e. \<forall>more. ?rec (mRuleName y) (ns @ more) (push ctx (mCtxExt y)) = Inl e)"
      using randomValueFromRule_active_drawList Suc.IH by blast
    from Suc.IH [OF bad]
    have badx: "\<exists>ns e. \<forall>more. ?rec (mRuleName x) (ns @ more) (push ctx (mCtxExt x)) = Inl e" .
    from randomAtoms_fails [OF each x badx, of "[Sym R]"] obtain ns e where
      atoms: "\<forall>more. randomAtoms ?rec (ns @ more) ctx (mAtoms p) [Sym R] = Inl e" by blast
    have "\<forall>more. randomValueFromRule drawList G R ((n # ns) @ more) (Suc d) ctx = Inl e"
      using Inr ne pickUniform_drawList [OF n(1)] n(2) atoms by simp
    then show ?thesis by blast
  qed
qed

text \<open>
  C8 (amended). With a generator that draws within its bounds, and productions carrying
  the flag their constructor computes: (a) when every configuration that the generator
  can reach from \<open>R\<close> at depth limit \<open>d\<close> in \<open>ctx\<close> has an active production
  (\<open>activeThroughout\<close>), \<open>randomValueFromRule\<close> returns a pair list headed by \<open>Sym R\<close>
  for every engine state; (b) when that is not so, some sequence of draws ends in an
  error; (c) when \<open>d\<close> is at least the minimal derivation depth of \<open>R\<close>, some sequence
  of draws returns a pair list headed by \<open>Sym R\<close>.
\<close>

theorem randomValueFromRule_returns:
  assumes "\<forall>g n. fst (draw g n) \<le> n"
    and "\<forall>rl r p. mRules G rl = Some r \<longrightarrow> p \<in> set (mProductions r) \<longrightarrow>
           mHasRefs p = (\<exists>a\<in>set (mAtoms p). isRef a)"
  shows "(activeThroughout G d ctx R \<longrightarrow>
            (\<exists>t gen'. randomValueFromRule draw G R gen d ctx = Inr (Pair (Sym R) t, gen')))
       \<and> (\<not> activeThroughout G d ctx R \<longrightarrow>
            (\<exists>ns e. randomValueFromRule drawList G R ns d ctx = Inl e))
       \<and> (derivableWithin G d ctx R \<longrightarrow>
            (\<exists>ns t. randomValueFromRule drawList G R ns d ctx = Inr (Pair (Sym R) t, [])))"
proof (intro conjI impI)
  assume "activeThroughout G d ctx R"
  from randomValueFromRule_active [OF assms(1) this]
  show "\<exists>t gen'. randomValueFromRule draw G R gen d ctx = Inr (Pair (Sym R) t, gen')" .
next
  assume "\<not> activeThroughout G d ctx R"
  from randomValueFromRule_inactive [OF this] obtain ns e where
    "\<forall>more. randomValueFromRule drawList G R (ns @ more) d ctx = Inl e" by blast
  then have "randomValueFromRule drawList G R (ns @ []) d ctx = Inl e" by blast
  then show "\<exists>ns e. randomValueFromRule drawList G R ns d ctx = Inl e" by auto
next
  assume "derivableWithin G d ctx R"
  from randomValueFromRule_derivable [OF assms(2) this] obtain ns t where
    "\<forall>more. randomValueFromRule drawList G R (ns @ more) d ctx = Inr (Pair (Sym R) t, more)"
    by blast
  then have "randomValueFromRule drawList G R (ns @ []) d ctx = Inr (Pair (Sym R) t, [])" by blast
  then show "\<exists>ns t. randomValueFromRule drawList G R ns d ctx = Inr (Pair (Sym R) t, [])" by auto
qed

lemma gAB_flags:
  "\<forall>rl r p. mRules gAB rl = Some r \<longrightarrow> p \<in> set (mProductions r) \<longrightarrow>
           mHasRefs p = (\<exists>a\<in>set (mAtoms p). isRef a)"
  by (auto simp: gAB_def Production_def split: if_splits)

lemma gDeep_flags:
  "\<forall>rl r p. mRules gDeep rl = Some r \<longrightarrow> p \<in> set (mProductions r) \<longrightarrow>
           mHasRefs p = (\<exists>a\<in>set (mAtoms p). isRef a)"
  by (auto simp: gDeep_def Production_def split: if_splits)

theorem randomValueFromRule_returns_witness:
  "(\<exists>t gen'. randomValueFromRule drawHighest gAB ''A'' (0::nat) 2 (Context [])
       = Inr (Pair (Sym ''A'') t, gen'))
   \<and> (\<exists>ns e. randomValueFromRule drawList gDeep ''A'' ns 2 (Context []) = Inl e)
   \<and> (\<exists>ns t. randomValueFromRule drawList gDeep ''A'' ns 2 (Context [])
       = Inr (Pair (Sym ''A'') t, []))"
proof -
  have b: "\<forall>g n. fst (drawHighest g n) \<le> n" by (simp add: drawHighest_def)
  have a1: "activeThroughout gAB 2 (Context []) ''A''" by code_simp
  have a2: "\<not> activeThroughout gDeep 2 (Context []) ''A''" by code_simp
  have a3: "derivableWithin gDeep 2 (Context []) ''A''" by code_simp
  from randomValueFromRule_returns [OF b gAB_flags, of 2 "Context []" "''A''" 0] a1
  have c1: "\<exists>t gen'. randomValueFromRule drawHighest gAB ''A'' (0::nat) 2 (Context [])
       = Inr (Pair (Sym ''A'') t, gen')" by blast
  from randomValueFromRule_returns [OF b gDeep_flags, of 2 "Context []" "''A''"] a2 a3
  have c2: "(\<exists>ns e. randomValueFromRule drawList gDeep ''A'' ns 2 (Context []) = Inl e)
   \<and> (\<exists>ns t. randomValueFromRule drawList gDeep ''A'' ns 2 (Context [])
       = Inr (Pair (Sym ''A'') t, []))" by blast
  from c1 c2 show ?thesis by blast
qed


text \<open>
  C8 as stated fails: in the grammar \<open>A := 1 | B; B := C; C := 1\<close> rule \<open>A\<close> has a
  derivation of depth 1, yet at depth limit 2 a generator that picks the second
  production of \<open>A\<close> ends in the needs-a-nonterminal-production error for \<open>B\<close>.
\<close>

theorem randomValue_claim_counterexample:
  "derivableWithin gDeep 1 (Context []) ''A'' \<and> (1::nat) \<le> 2
   \<and> randomValueFromRule drawHighest gDeep ''A'' 0 2 (Context [])
        = Inl (NeedsNonterminalProduction ''B'')"
  by (simp add: gDeep_def drawHighest_def eval_nat_numeral Production_def
        getActiveProductions_def getProductions_def pickUniform_def push_def pop_def)

section \<open>Properties of the k-path covering\<close>







































section \<open>Properties of the textual form of values\<close>

text \<open>
  C3. Reading back what was written does not give the value for every value. The blob
  holding the single byte \<open>0x41\<close> is written as \<open>[0xA]\<close>, the byte being inserted as a
  character, and the reader, which extracts one character per element, reads the three
  bytes \<open>0x30\<close>, \<open>0x78\<close> and \<open>0x41\<close> from it.
\<close>

theorem Value_roundtrip_Blob:
  "printValue (Blob [0x41]) = ''[0xA]''
   \<and> readBack (Suc fuel) (Blob [0x41]) = Some (Inr (Blob [0x30, 0x78, 0x41]))"
proof -
  have p: "printValue (Blob [0x41]) = ''[0xA]''"
    by code_simp
  have a: "scanWhitespace (istringstream ''[0xA]'') = istringstream ''[0xA]''"
    by code_simp
  have b: "parseBytes \<lparr>content = ''0xA]'', offset = Suc 0, eofbit = False, failbit = False,
                        basehex = False\<rparr> []
      = ([0x30, 0x78, 0x41],
         \<lparr>content = '']'', offset = 4, eofbit = False, failbit = False, basehex = True\<rparr>)"
    by code_simp
  have "readBack (Suc fuel) (Blob [0x41]) = Some (Inr (Blob [0x30, 0x78, 0x41]))"
    unfolding readBack_def p parseValue.simps a Let_def
    by (simp add: b good_def peek_def peekIs_def get_def istringstream_def)
  with p show ?thesis ..
qed

text \<open>
  Further values that are not read back: a symbol made of digits is written like the
  integer, and an integer written after a non-empty blob is written in hexadecimal.
\<close>

lemma Value_roundtrip_others:
  "readBack 2 (Sym ''1'') = Some (Inr (Int64 1))"
  "readBack 6 (Pair (Blob [1]) [Int64 10]) = Some (Inr (Pair (Blob [0x30, 0x78, 1]) [Sym ''a'']))"
  "printValue (Sym ''1'') = printValue (Int64 1)"
  by code_simp+

text \<open>Values without blobs and digit symbols do come back, for example this one.\<close>

lemma Value_roundtrip_example:
  "readBack 8 (Pair (Sym ''expr'') [Int64 (- 3), Str ''a b'']) =
     Some (Inr (Pair (Sym ''expr'') [Int64 (- 3), Str ''a b'']))"
  by code_simp

text \<open>
  A string that the input ends in: after an escaped backslash the loop runs once more on
  the backslash that \<open>c\<close> still holds and throws for an incomplete escape; otherwise
  the string is reported incomplete.
\<close>

lemma parseValue_incomplete_string:
  "parseValue 1 (istringstream [CHR 0x22, CHR 0x5C, CHR 0x5C]) Nil = Some (Inl IncompleteStringEscape)"
  "parseValue 1 (istringstream [CHR 0x22, CHR ''a'']) Nil = Some (Inl IncompleteString)"
  by code_simp+

section \<open>Properties of the transcript reader\<close>

lemma readParams_mTestName:
  "readParams fuel is p = Some (Inr (p', is')) \<Longrightarrow> mTestName p' = mTestName p"
proof (induction fuel arbitrary: "is" p)
  case 0
  then show ?case by simp
next
  case (Suc fuel)
  from Suc.prems show ?case
    by (auto simp: addParam_def dest!: Suc.IH
             split: if_splits prod.splits sum.splits option.splits bool.splits)
qed

lemma readPlan_mTestName:
  "readPlan fuel is p = Some (Inr (p', is')) \<Longrightarrow> mTestName p' = mTestName p"
  unfolding readPlan_def by (drule readParams_mTestName) simp

text \<open>
  C9. Once the header and the plan have been read, a plan hash in the header that
  differs from the hash of the plan read makes the reader fail with the input failure
  that carries \<open>tellg\<close> of the stream and both hashes; and a transcript is returned only
  when the header and the plan were read and the hash in the header is the hash of the
  plan of the transcript.
\<close>

theorem readTranscript_checks_hash:
  "(readHeader is = Inr (tname, plan_hash, is1)
      \<and> readPlan fuel is1 (Plan tname) = Some (Inr (p, is2))
      \<and> plan_hash \<noteq> getHashCode xxhash p
     \<longrightarrow> readTranscript fuel xxhash is
           = Some (Inl (InputFailure (tellg is2) (showInt64 False plan_hash)
                          (showInt64 False (getHashCode xxhash p)))))
   \<and> (readTranscript fuel xxhash is = Some (Inr (t, is3))
     \<longrightarrow> (\<exists>plan_hash is1 is2.
            readHeader is = Inr (getTestName t, plan_hash, is1)
          \<and> readPlan fuel is1 (Plan (getTestName t)) = Some (Inr (mPlan t, is2))
          \<and> plan_hash = getHashCode xxhash (mPlan t)))"
proof (intro conjI impI)
  assume "readHeader is = Inr (tname, plan_hash, is1)
      \<and> readPlan fuel is1 (Plan tname) = Some (Inr (p, is2))
      \<and> plan_hash \<noteq> getHashCode xxhash p"
  then show "readTranscript fuel xxhash is
           = Some (Inl (InputFailure (tellg is2) (showInt64 False plan_hash)
                          (showInt64 False (getHashCode xxhash p))))"
    by (simp add: readTranscript_def expectVal_def)
next
  assume ok: "readTranscript fuel xxhash is = Some (Inr (t, is3))"
  show "\<exists>plan_hash is1 is2.
            readHeader is = Inr (getTestName t, plan_hash, is1)
          \<and> readPlan fuel is1 (Plan (getTestName t)) = Some (Inr (mPlan t, is2))
          \<and> plan_hash = getHashCode xxhash (mPlan t)"
  proof (cases "readHeader is")
    case (Inl e)
    with ok show ?thesis by (simp add: readTranscript_def)
  next
    case (Inr hdr)
    obtain tn ph i1 where hdr: "hdr = (tn, ph, i1)" by (cases hdr)
    show ?thesis
    proof (cases "readPlan fuel i1 (Plan tn)")
      case None
      with ok Inr hdr show ?thesis by (simp add: readTranscript_def)
    next
      case (Some r)
      show ?thesis
      proof (cases r)
        case (Inl e)
        with ok Inr hdr Some show ?thesis by (simp add: readTranscript_def)
      next
        case r: (Inr pr)
        obtain q i2 where pr: "pr = (q, i2)" by (cases pr)
        from Some r pr have rp: "readPlan fuel i1 (Plan tn) = Some (Inr (q, i2))" by simp
        from readPlan_mTestName [OF rp] have tn: "mTestName q = tn" by (simp add: Plan_def)
        from ok Inr hdr rp have "ph = getHashCode xxhash q \<and> mPlan t = q"
          by (auto simp: readTranscript_def expectVal_def Transcript_def
                   split: if_splits option.splits sum.splits)
        with Inr hdr rp tn show ?thesis
          by (auto simp: getTestName_def)
      qed
    qed
  qed
qed

theorem readTranscript_checks_hash_witness:
  "readTranscript 4 lengthHash (istringstream ''#### transcript: T 0x7 param: n = 1 check: r = 2'')
     = Some (Inl (InputFailure 36 ''7'' ''5''))
   \<and> (\<exists>plan_hash is1 is2.
          readHeader (istringstream ''#### transcript: T 0x5 param: n = 1 check: r = 2'')
            = Inr (''T'', plan_hash, is1)
        \<and> readPlan 4 is1 (Plan ''T'') = Some (Inr (\<lparr>mTestName = ''T'', mParams = [(''n'', Int64 1)]\<rparr>, is2))
        \<and> plan_hash = getHashCode lengthHash \<lparr>mTestName = ''T'', mParams = [(''n'', Int64 1)]\<rparr>)"
proof -
  let ?bad = "istringstream ''#### transcript: T 0x7 param: n = 1 check: r = 2''"
  let ?good = "istringstream ''#### transcript: T 0x5 param: n = 1 check: r = 2''"
  let ?p = "\<lparr>mTestName = ''T'', mParams = [(''n'', Int64 1)]\<rparr>"
  let ?is1 = "\<lparr>content = '' param: n = 1 check: r = 2'', offset = 22, eofbit = False,
                failbit = False, basehex = False\<rparr>"
  let ?is2 = "\<lparr>content = ''check: r = 2'', offset = 36, eofbit = False,
                failbit = False, basehex = False\<rparr>"
  have h: "readHeader ?bad = Inr (''T'', 7, ?is1)"
    by code_simp
  have p: "readPlan 4 ?is1 (Plan ''T'') = Some (Inr (?p, ?is2))"
    by code_simp
  have n: "(7 :: 64 word) \<noteq> getHashCode lengthHash ?p"
    by code_simp
  have s: "showInt64 False 7 = ''7''" "showInt64 False (getHashCode lengthHash ?p) = ''5''"
    "tellg ?is2 = 36"
    by code_simp+
  have g: "readTranscript 4 lengthHash ?good
      = Some (Inr (\<lparr>mPlan = ?p, mVars = [(''r'', Int64 2, False)]\<rparr>,
                   \<lparr>content = [], offset = 48, eofbit = True, failbit = False, basehex = False\<rparr>))"
    by code_simp
  from readTranscript_checks_hash [of ?bad "''T''" 7 ?is1 4 ?p ?is2 lengthHash] h p n s
  have a: "readTranscript 4 lengthHash ?bad = Some (Inl (InputFailure 36 ''7'' ''5''))"
    by simp
  from readTranscript_checks_hash [of ?good _ _ _ 4 _ _ lengthHash
      "\<lparr>mPlan = ?p, mVars = [(''r'', Int64 2, False)]\<rparr>"
      "\<lparr>content = [], offset = 48, eofbit = True, failbit = False, basehex = False\<rparr>"] g
  have b: "\<exists>plan_hash is1 is2.
          readHeader ?good = Inr (''T'', plan_hash, is1)
        \<and> readPlan 4 is1 (Plan ''T'') = Some (Inr (?p, is2))
        \<and> plan_hash = getHashCode lengthHash ?p"
    by (simp add: getTestName_def)
  from a b show ?thesis by blast
qed

section \<open>Properties of administering a test\<close>
















end
